theory Spec2Isabelle
  imports Complex_Main "HOL-Library.Word" "HOL-Library.List_Lexorder" "HOL-Library.Char_ord"
begin

unbundle bit_operations_syntax

section \<open>Streaming relative-error quantiles sketch\<close>

text \<open>
  A shallow embedding of \<^verbatim>\<open>compactor.h\<close> and \<^verbatim>\<open>relative_error_quantiles_sketch.h\<close>.

  Conventions of the embedding.
  \<^item> Items are an arbitrary linearly ordered type (the C++ template parameter \<open>T\<close> with
    \<open>operator<\<close>).
  \<^item> The \<open>uint64_t\<close> fields and locals are natural numbers. The one unsigned subtraction
    that can wrap, \<open>max_buffer_size - elements_to_compact\<close>, is guarded: where the C++
    value wraps, the iterator \<open>buffer.rbegin() + S\<close> lies outside the buffer and the model
    returns the fault \<open>ScheduleExceedsBuffer\<close>.
  \<^item> Products and increments of these numbers (\<open>2 * k * m\<close>, \<open>sections_to_compact * k\<close>,
    \<open>++C\<close>) are taken in the naturals: a compaction needs a buffer of \<open>max_buffer_size\<close>
    items in memory, which keeps them far below \<open>2 ^ 64\<close>.
  \<^item> \<open>double\<close> values are real numbers: every weight is a power of two and the sums are
    exact in double precision below \<open>2 ^ 53\<close>; a division by zero yields an infinity or
    NaN as in IEEE arithmetic.
  \<^item> \<^verbatim>\<open>std::sort\<close> in \<open>Close\<close> is a stable sort by item, one of the orders the standard
    allows.
  \<^item> Assertions are enabled: a failed \<^verbatim>\<open>assert\<close> is the fault \<open>AssertionFailed\<close>. The member
    \<open>empty()\<close> of the item type, which \<open>Close\<close> asserts to be false of every stored item, is
    a parameter of \<open>Close\<close>: \<open>string_empty\<close> for \<open>std::string\<close> items, and \<open>never_empty\<close> for
    the \<open>int\<close> items of the tests, which have no such member and are built with the
    assertions compiled out.
  \<^item> \<open>RandomBoolean()\<close> is an oracle \<open>coins :: nat \<Rightarrow> bool\<close> together with the number
    of coins drawn so far, threaded through the calls.
  \<^item> Undefined behaviour, failed assertions and running out of recursion fuel are values
    of the type \<open>fault\<close>.
  \<^item> Record fields carry a prefix where the C++ name is a single letter
    (\<open>cmp_k\<close> for \<open>Compactor::k\<close>, \<open>sk_H\<close> for \<open>H_\<close>).
\<close>

datatype fault =
    BadConfiguration        \<comment> \<open>the constructor converts a negative, infinite or NaN double to \<open>uint64_t\<close>\<close>
  | ScheduleExceedsBuffer   \<comment> \<open>\<open>elements_to_compact > max_buffer_size\<close>: \<open>S\<close> wraps, iterators leave the buffer\<close>
  | LevelOutOfRange         \<comment> \<open>\<open>compactors_[h]\<close> with \<open>h \<ge> compactors_.size()\<close>\<close>
  | AssertionFailed         \<comment> \<open>\<open>assert(H_ + 1 == compactors_.size())\<close> or \<open>assert(!t.empty())\<close> in \<open>Close\<close>\<close>
  | OutOfFuel               \<comment> \<open>the recursion bound of the model was reached\<close>

subsection \<open>Coin oracle\<close>

definition RandomBoolean :: "(nat \<Rightarrow> bool) \<Rightarrow> nat \<Rightarrow> bool \<times> nat" where
  "RandomBoolean coins pos = (coins pos, Suc pos)"

subsection \<open>Compactor\<close>

record 'a Compactor =
  cmp_n :: nat
  cmp_k :: nat
  max_buffer_size :: nat
  cmp_C :: nat
  cmp_h :: nat
  buffer :: "'a list"

text \<open>
  \<open>m = ceil (log (n / k) / log 2)\<close>: the least \<open>m\<close> with \<open>n \<le> k * 2 ^ m\<close>, found by
  counting up. The C++ computes it in floating point, where the quotient of the two
  logarithms can round just above an integer (so that the ceiling is one more); the model
  takes the exact value, which is the one the tests of the repository expect.
\<close>

function ceil_log2_ratio :: "nat \<Rightarrow> nat \<Rightarrow> nat \<Rightarrow> nat" where
  "ceil_log2_ratio k n m =
     (if 0 < k \<and> k * 2 ^ m < n then ceil_log2_ratio k n (Suc m) else m)"
  by pat_completeness auto
termination
proof (relation "measure (\<lambda>(k, n, m). n - k * 2 ^ m)")
  show "wf (measure (\<lambda>(k, n, m). n - k * 2 ^ m))" by simp
next
  fix k n m :: nat
  assume a: "0 < k \<and> k * 2 ^ m < n"
  then have "0 < k * 2 ^ m" by simp
  with a have "n - 2 * (k * 2 ^ m) < n - k * 2 ^ m" by linarith
  then show "((k, n, Suc m), (k, n, m)) \<in> measure (\<lambda>(k, n, m). n - k * 2 ^ m)"
    by (simp add: mult.commute mult.left_commute)
qed

text \<open>
  The constructor. For \<open>k = 0\<close> the quotient is infinite or NaN, and for \<open>2 * n \<le> k\<close> the
  ceiling is negative (or minus infinity): the conversion to \<open>uint64_t\<close> is undefined.
\<close>

definition new_Compactor :: "nat \<Rightarrow> nat \<Rightarrow> nat \<Rightarrow> fault + 'a Compactor" where
  "new_Compactor k n h =
     (if k = 0 \<or> 2 * n \<le> k then Inl BadConfiguration
      else let m = ceil_log2_ratio k n 0 in
        Inr \<lparr>cmp_n = n, cmp_k = k, max_buffer_size = 2 * k * m, cmp_C = 0, cmp_h = h,
             buffer = []\<rparr>)"

text \<open>
  The loop \<^verbatim>\<open>while ((c & 1) == 1) { sections_to_compact++; c >>= 1; }\<close> followed by
  \<^verbatim>\<open>sections_to_compact++\<close>.
\<close>

function count_sections :: "nat \<Rightarrow> nat \<Rightarrow> nat" where
  "count_sections sections c =
     (if c AND 1 = 1 then count_sections (sections + 1) (drop_bit 1 c) else sections)"
  by pat_completeness auto
termination
proof (relation "measure (\<lambda>(sections, c). c)")
  show "wf (measure (\<lambda>(sections, c). c))" by simp
next
  fix sections c :: nat
  assume "c AND 1 = 1"
  then have "odd c" by (cases "odd c") (simp_all add: and_one_eq)
  then have "0 < c" by (cases c) auto
  then show "((sections + 1, drop_bit 1 c), (sections, c)) \<in> measure (\<lambda>(sections, c). c)"
    by (simp add: drop_bit_Suc)
qed

definition sections_to_compact :: "nat \<Rightarrow> nat" where
  "sections_to_compact c = count_sections 0 c + 1"

definition elements_to_compact :: "'a Compactor \<Rightarrow> nat" where
  "elements_to_compact c = sections_to_compact (cmp_C c) * cmp_k c"

definition split_point :: "'a Compactor \<Rightarrow> nat" where
  "split_point c = max_buffer_size c - elements_to_compact c"

text \<open>
  \<^verbatim>\<open>std::partial_sort(buffer.rbegin(), buffer.rbegin() + S, buffer.rend(), std::greater{})\<close>:
  seen from the front, the last \<open>S\<close> positions receive the \<open>S\<close> largest items in ascending
  order. The standard leaves the order of the other items open; the model keeps them
  ascending as well. The lengths, the counts and the multiset of items do not depend on
  that choice, the identity of the items at the other positions does.
\<close>

definition partial_sort_rev :: "nat \<Rightarrow> ('a::linorder) list \<Rightarrow> 'a list" where
  "partial_sort_rev S xs =
     (let sorted_xs = sort xs; rest = length xs - S
      in take rest sorted_xs @ drop rest sorted_xs)"

text \<open>The walk \<^verbatim>\<open>while (i < max_buffer_size) { output.push_back(buffer[i]); i += 2; }\<close>.\<close>

function take_every_other :: "'a list \<Rightarrow> nat \<Rightarrow> nat \<Rightarrow> 'a list \<Rightarrow> 'a list" where
  "take_every_other buf bound i output =
     (if i < bound then take_every_other buf bound (i + 2) (output @ [buf ! i]) else output)"
  by pat_completeness auto
termination
  by (relation "measure (\<lambda>(buf, bound, i, output). bound - i)") auto

text \<open>
  The body of \<^verbatim>\<open>if (buffer.size() == max_buffer_size) { ... }\<close> in \<open>Compactor::Insert\<close>:
  it returns the compacted compactor, the promoted items and the coin position.
\<close>

definition compaction ::
  "(nat \<Rightarrow> bool) \<Rightarrow> ('a::linorder) Compactor \<times> nat \<Rightarrow> fault + ('a Compactor \<times> 'a list \<times> nat)"
where
  "compaction coins cp =
     (let c = fst cp; pos = snd cp in
      if max_buffer_size c < elements_to_compact c then Inl ScheduleExceedsBuffer
      else
        let S = split_point c;
            buf = partial_sort_rev S (buffer c);
            (even_coin, pos') = RandomBoolean coins pos;
            i = (if \<not> even_coin \<and> S mod 2 = 0 then S + 1 else S);
            output = take_every_other buf (max_buffer_size c) i [];
            target_capacity = max_buffer_size c - elements_to_compact c
        in Inr (c\<lparr>buffer := take target_capacity buf, cmp_C := cmp_C c + 1\<rparr>, output, pos'))"

definition Compactor_Insert ::
  "(nat \<Rightarrow> bool) \<Rightarrow> ('a::linorder) Compactor \<times> nat \<Rightarrow> 'a \<Rightarrow>
     fault + ('a Compactor \<times> 'a list \<times> nat)"
where
  "Compactor_Insert coins cp element =
     (if length (buffer (fst cp)) = max_buffer_size (fst cp) then
        (case compaction coins cp of
           Inl e \<Rightarrow> Inl e
         | Inr (c', output, pos') \<Rightarrow> Inr (c'\<lparr>buffer := buffer c' @ [element]\<rparr>, output, pos'))
      else Inr ((fst cp)\<lparr>buffer := buffer (fst cp) @ [element]\<rparr>, [], snd cp))"

text \<open>
  The variant of \<open>Compactor::Insert\<close> in \<^verbatim>\<open>streaming-quantiles/compactor.cpp\<close>: the
  schedule is read with \<^verbatim>\<open>std::countr_one\<close>, the pivot is
  \<open>S = max_buffer_size - elements_to_compact + 1\<close> and the walk starts at \<open>S - 1\<close>.
  \<open>buffer.rbegin() + S\<close> leaves the buffer when \<open>elements_to_compact\<close> is \<open>0\<close> or exceeds
  \<open>max_buffer_size\<close>.
\<close>

function countr_one :: "nat \<Rightarrow> nat" where
  "countr_one c = (if odd c then Suc (countr_one (c div 2)) else 0)"
  by pat_completeness auto
termination
  by (relation "measure (\<lambda>c. c)") (auto elim: oddE)

definition compaction_cpp ::
  "(nat \<Rightarrow> bool) \<Rightarrow> ('a::linorder) Compactor \<times> nat \<Rightarrow> fault + ('a Compactor \<times> 'a list \<times> nat)"
where
  "compaction_cpp coins cp =
     (let c = fst cp; pos = snd cp;
          elements = (countr_one (cmp_C c) + 1) * cmp_k c in
      if max_buffer_size c < elements \<or> elements = 0 then Inl ScheduleExceedsBuffer
      else
        let S = max_buffer_size c - elements + 1;
            buf = partial_sort_rev S (buffer c);
            (even_coin, pos') = RandomBoolean coins pos;
            i = (if \<not> even_coin \<and> (S - 1) mod 2 = 0 then S - 1 + 1 else S - 1);
            output = take_every_other buf (max_buffer_size c) i [];
            target_capacity = max_buffer_size c - elements
        in Inr (c\<lparr>buffer := take target_capacity buf, cmp_C := cmp_C c + 1\<rparr>, output, pos'))"

definition Compactor_Insert_cpp ::
  "(nat \<Rightarrow> bool) \<Rightarrow> ('a::linorder) Compactor \<times> nat \<Rightarrow> 'a \<Rightarrow>
     fault + ('a Compactor \<times> 'a list \<times> nat)"
where
  "Compactor_Insert_cpp coins cp element =
     (if length (buffer (fst cp)) = max_buffer_size (fst cp) then
        (case compaction_cpp coins cp of
           Inl e \<Rightarrow> Inl e
         | Inr (c', output, pos') \<Rightarrow> Inr (c'\<lparr>buffer := buffer c' @ [element]\<rparr>, output, pos'))
      else Inr ((fst cp)\<lparr>buffer := buffer (fst cp) @ [element]\<rparr>, [], snd cp))"

text \<open>Running a loop body over a list of items, stopping at the first fault.\<close>

fun for_each :: "('s \<Rightarrow> 'a \<Rightarrow> fault + 's) \<Rightarrow> 'a list \<Rightarrow> 's \<Rightarrow> fault + 's" where
  "for_each f [] st = Inr st"
| "for_each f (x # xs) st = (case f st x of Inl e \<Rightarrow> Inl e | Inr st' \<Rightarrow> for_each f xs st')"

text \<open>A compactor driven on its own, as in \<^verbatim>\<open>compactor_test.cpp\<close>; the outputs are dropped.\<close>

definition Compactor_Insert_all ::
  "(nat \<Rightarrow> bool) \<Rightarrow> ('a::linorder) Compactor \<times> nat \<Rightarrow> 'a list \<Rightarrow> fault + ('a Compactor \<times> nat)"
where
  "Compactor_Insert_all coins cp xs =
     for_each (\<lambda>st x. case Compactor_Insert coins st x of
                         Inl e \<Rightarrow> Inl e
                       | Inr (c', output, pos') \<Rightarrow> Inr (c', pos')) xs cp"

subsection \<open>Sketch\<close>

record RelativeErrorQuantilesSketchOptions =
  opt_n :: nat
  opt_k :: nat

record 'a WeightedElement =
  item :: 'a
  weight :: real

record 'a Quantile =
  quantile :: int
  q_item :: 'a
  cumulative_weight :: real

record 'a Sketch =
  options :: RelativeErrorQuantilesSketchOptions
  sk_H :: nat
  compactors :: "'a Compactor list"
  weighted_elements :: "'a WeightedElement list"
  total_weight :: real

definition new_Sketch :: "RelativeErrorQuantilesSketchOptions \<Rightarrow> fault + 'a Sketch" where
  "new_Sketch opts =
     (case new_Compactor (opt_k opts) (opt_n opts) 0 of
        Inl e \<Rightarrow> Inl e
      | Inr c \<Rightarrow> Inr \<lparr>options = opts, sk_H = 0, compactors = [c], weighted_elements = [],
                      total_weight = 0\<rparr>)"

text \<open>The block \<^verbatim>\<open>if (H_ < h) { H_ = h; compactors_.push_back(Compactor<T>(k, n, h)); }\<close>.\<close>

definition create_level :: "'a Sketch \<Rightarrow> nat \<Rightarrow> fault + 'a Sketch" where
  "create_level s h =
     (if sk_H s < h then
        (case new_Compactor (opt_k (options s)) (opt_n (options s)) h of
           Inl e \<Rightarrow> Inl e
         | Inr c \<Rightarrow> Inr (s\<lparr>sk_H := h, compactors := compactors s @ [c]\<rparr>))
      else Inr s)"

text \<open>
  \<open>Insert(element, h)\<close> calls itself at level \<open>h + 1\<close> for every promoted item. The first
  argument bounds the depth of these calls.
\<close>

fun Insert ::
  "nat \<Rightarrow> (nat \<Rightarrow> bool) \<Rightarrow> ('a::linorder) Sketch \<times> nat \<Rightarrow> 'a \<Rightarrow> nat \<Rightarrow> fault + ('a Sketch \<times> nat)"
where
  "Insert 0 coins sp element h = Inl OutOfFuel"
| "Insert (Suc fuel) coins sp element h =
     (case create_level (fst sp) h of
        Inl e \<Rightarrow> Inl e
      | Inr s1 \<Rightarrow>
          if length (compactors s1) \<le> h then Inl LevelOutOfRange
          else
            (case Compactor_Insert coins (compactors s1 ! h, snd sp) element of
               Inl e \<Rightarrow> Inl e
             | Inr (c', output_stream, pos') \<Rightarrow>
                 for_each (\<lambda>st t. Insert fuel coins st t (h + 1)) output_stream
                   (s1\<lparr>compactors := (compactors s1)[h := c']\<rparr>, pos')))"

text \<open>A sequence of \<open>Insert(element, h)\<close> calls, and the ingestion of items at level \<open>0\<close>.\<close>

definition Insert_calls ::
  "nat \<Rightarrow> (nat \<Rightarrow> bool) \<Rightarrow> ('a::linorder) Sketch \<times> nat \<Rightarrow> ('a \<times> nat) list \<Rightarrow>
     fault + ('a Sketch \<times> nat)"
where
  "Insert_calls fuel coins sp calls =
     for_each (\<lambda>st call. Insert fuel coins st (fst call) (snd call)) calls sp"

definition Insert_all ::
  "nat \<Rightarrow> (nat \<Rightarrow> bool) \<Rightarrow> ('a::linorder) Sketch \<times> nat \<Rightarrow> 'a list \<Rightarrow> fault + ('a Sketch \<times> nat)"
where
  "Insert_all fuel coins sp xs = Insert_calls fuel coins sp (map (\<lambda>x. (x, 0)) xs)"

text \<open>
  \<open>Close\<close>. The lambda of \<^verbatim>\<open>std::transform\<close> asserts \<open>!t.empty()\<close> for every item before it
  builds the weighted element; the loop over the compactors counts the level; then come
  the sort and the sum.
\<close>

fun transform_buffer ::
  "('a \<Rightarrow> bool) \<Rightarrow> real \<Rightarrow> 'a list \<Rightarrow> fault + 'a WeightedElement list"
where
  "transform_buffer is_empty w [] = Inr []"
| "transform_buffer is_empty w (t # ts) =
     (if is_empty t then Inl AssertionFailed
      else
        (case transform_buffer is_empty w ts of
           Inl e \<Rightarrow> Inl e
         | Inr ws \<Rightarrow> Inr (\<lparr>item = t, weight = w\<rparr> # ws)))"

fun collect_weighted ::
  "('a \<Rightarrow> bool) \<Rightarrow> 'a Compactor list \<Rightarrow> nat \<Rightarrow> 'a WeightedElement list \<Rightarrow>
     fault + 'a WeightedElement list"
where
  "collect_weighted is_empty [] h acc = Inr acc"
| "collect_weighted is_empty (c # cs) h acc =
     (case transform_buffer is_empty (2 ^ h) (buffer c) of
        Inl e \<Rightarrow> Inl e
      | Inr ws \<Rightarrow> collect_weighted is_empty cs (h + 1) (acc @ ws))"

definition accumulate_weight :: "'a WeightedElement list \<Rightarrow> real" where
  "accumulate_weight ws = foldl (\<lambda>d element. d + weight element) 0 ws"

definition Close :: "('a \<Rightarrow> bool) \<Rightarrow> ('a::linorder) Sketch \<Rightarrow> fault + 'a Sketch" where
  "Close is_empty s =
     (if sk_H s + 1 \<noteq> length (compactors s) then Inl AssertionFailed
      else
        (case collect_weighted is_empty (compactors s) 0 (weighted_elements s) of
           Inl e \<Rightarrow> Inl e
         | Inr collected \<Rightarrow>
             let ws = sort_key item collected
             in Inr (s\<lparr>weighted_elements := ws, total_weight := accumulate_weight ws\<rparr>)))"

text \<open>The member \<open>empty()\<close> of \<open>std::string\<close>, and its stand-in for items that have none.\<close>

definition string_empty :: "string \<Rightarrow> bool" where
  "string_empty t \<longleftrightarrow> t = []"

definition never_empty :: "'a \<Rightarrow> bool" where
  "never_empty t \<longleftrightarrow> False"

subsection \<open>Queries\<close>

text \<open>\<^verbatim>\<open>std::lower_bound\<close>: the binary search of the standard library, on positions.\<close>

function lower_bound :: "'a WeightedElement list \<Rightarrow> ('a::linorder) \<Rightarrow> nat \<Rightarrow> nat \<Rightarrow> nat" where
  "lower_bound ws t first len =
     (if 0 < len \<and> first + len \<le> length ws then
        let half = len div 2; middle = first + half in
        if item (ws ! middle) < t then lower_bound ws t (middle + 1) (len - half - 1)
        else lower_bound ws t first half
      else first)"
  by pat_completeness auto
termination
  by (relation "measure (\<lambda>(ws, t, first, len). len)") auto

definition EstimateRank :: "('a::linorder) Sketch \<Rightarrow> 'a \<Rightarrow> real" where
  "EstimateRank s t =
     (let it = lower_bound (weighted_elements s) t 0 (length (weighted_elements s))
      in accumulate_weight (take it (weighted_elements s)))"

text \<open>
  Division and comparison of doubles where the divisor may be zero: the quotient is then
  infinite or NaN, and a comparison with NaN is false.
\<close>

datatype double_quotient = NaN | MInf | Fin real | PInf

definition double_div :: "real \<Rightarrow> real \<Rightarrow> double_quotient" where
  "double_div a b =
     (if b \<noteq> 0 then Fin (a / b) else if a = 0 then NaN else if 0 < a then PInf else MInf)"

fun double_ge :: "double_quotient \<Rightarrow> double_quotient \<Rightarrow> bool" where
  "double_ge NaN y = False"
| "double_ge x NaN = False"
| "double_ge PInf y = True"
| "double_ge x MInf = True"
| "double_ge (Fin a) (Fin b) = (b \<le> a)"
| "double_ge x y = False"

fun Quantiles_loop ::
  "'a WeightedElement list \<Rightarrow> real \<Rightarrow> int \<Rightarrow> int \<Rightarrow> real \<Rightarrow> 'a Quantile list \<Rightarrow> 'a Quantile list"
where
  "Quantiles_loop [] total_w n current_quantile current_total_weight quantiles = quantiles"
| "Quantiles_loop (element # rest) total_w n current_quantile current_total_weight quantiles =
     (let w = current_total_weight + weight element in
      if double_ge (double_div w total_w) (double_div (of_int current_quantile) (of_int n))
      then Quantiles_loop rest total_w n (current_quantile + 1) w
             (quantiles @ [\<lparr>quantile = current_quantile, q_item = item element,
                            cumulative_weight = w\<rparr>])
      else Quantiles_loop rest total_w n current_quantile w quantiles)"

definition Quantiles :: "'a Sketch \<Rightarrow> int \<Rightarrow> 'a Quantile list" where
  "Quantiles s n = Quantiles_loop (weighted_elements s) (total_weight s) n 1 0 []"

definition Depth :: "'a Sketch \<Rightarrow> nat" where
  "Depth s = sk_H s"

definition TotalWeight :: "'a Sketch \<Rightarrow> real" where
  "TotalWeight s = total_weight s"

subsection \<open>Test fixtures and specification-side notions\<close>

text \<open>Two deterministic coin streams, as the tests may substitute for the oracle.\<close>

fun coins_true :: "nat \<Rightarrow> bool" where
  "coins_true i = True"

fun coins_false :: "nat \<Rightarrow> bool" where
  "coins_false i = False"

text \<open>
  The number of trailing one-bits of the binary representation of \<open>c\<close>, in the words of
  the specification: the index of the smallest bit not set in \<open>c\<close>.
\<close>

definition trailing_ones :: "nat \<Rightarrow> nat" where
  "trailing_ones c = (LEAST i. \<not> bit c i)"

text \<open>The compactor of \<^verbatim>\<open>CompactorTest.Compaction\<close>: \<open>Compactor<int>(2, 8, 0)\<close>.\<close>

abbreviation test_compactor :: "nat \<Rightarrow> int list \<Rightarrow> int Compactor" where
  "test_compactor c buf \<equiv>
     \<lparr>cmp_n = 8, cmp_k = 2, max_buffer_size = 8, cmp_C = c, cmp_h = 0, buffer = buf\<rparr>"

text \<open>
  The compactors and sketches of the tests with \<open>k = 2\<close>, \<open>n = 8\<close>, and the body of
  \<^verbatim>\<open>RelativeErrorQuantilesSketchTest.RankAndQuantiles\<close>: it returns the total weight, the
  estimated rank of \<open>51\<close> and the \<open>2\<close>-quantiles. The recursion bound \<open>101\<close> exceeds the
  number of items, which suffices for every insert to return.
\<close>

abbreviation test_compactor_at :: "nat \<Rightarrow> nat \<Rightarrow> int list \<Rightarrow> int Compactor" where
  "test_compactor_at h c buf \<equiv>
     \<lparr>cmp_n = 8, cmp_k = 2, max_buffer_size = 8, cmp_C = c, cmp_h = h, buffer = buf\<rparr>"

abbreviation test_sketch :: "nat \<Rightarrow> int Compactor list \<Rightarrow> int Sketch" where
  "test_sketch H cs \<equiv>
     \<lparr>options = \<lparr>opt_n = 8, opt_k = 2\<rparr>, sk_H = H, compactors = cs,
       weighted_elements = [], total_weight = 0\<rparr>"

text \<open>The same fixtures for \<open>std::string\<close> items, as in \<^verbatim>\<open>RelativeErrorQuantilesSketchTest.Insert\<close>.\<close>

abbreviation string_compactor_at :: "nat \<Rightarrow> nat \<Rightarrow> string list \<Rightarrow> string Compactor" where
  "string_compactor_at h c buf \<equiv>
     \<lparr>cmp_n = 8, cmp_k = 2, max_buffer_size = 8, cmp_C = c, cmp_h = h, buffer = buf\<rparr>"

abbreviation string_sketch :: "nat \<Rightarrow> string Compactor list \<Rightarrow> string Sketch" where
  "string_sketch H cs \<equiv>
     \<lparr>options = \<lparr>opt_n = 8, opt_k = 2\<rparr>, sk_H = H, compactors = cs,
       weighted_elements = [], total_weight = 0\<rparr>"

definition RankAndQuantiles_test ::
  "(nat \<Rightarrow> bool) \<Rightarrow> fault + (real \<times> real \<times> int Quantile list)" where
  "RankAndQuantiles_test coins =
     (case new_Sketch \<lparr>opt_n = 100, opt_k = 4\<rparr> of
        Inl e \<Rightarrow> Inl e
      | Inr sketch \<Rightarrow>
          (case Insert_all 101 coins (sketch, 0) (map int [1..<101]) of
             Inl e \<Rightarrow> Inl e
           | Inr (sketch', pos) \<Rightarrow>
               (case Close never_empty sketch' of
                  Inl e \<Rightarrow> Inl e
                | Inr sketch_closed \<Rightarrow>
                    Inr (TotalWeight sketch_closed, EstimateRank sketch_closed 51, Quantiles sketch_closed 2))))"

subsection \<open>Measures and invariants used in the proofs\<close>

text \<open>
  \<open>items_count\<close> is the number of stored items, \<open>level_weight cs h\<close> the weight they
  stand for when the first compactor of \<open>cs\<close> sits at level \<open>h\<close>. \<open>well_formed\<close> is the
  invariant of a sketch that has not been closed; \<open>conserving s count h r\<close> says that the
  result \<open>r\<close> of inserting \<open>count\<close> items at level \<open>h\<close> into \<open>s\<close> either stopped at a
  schedule overrun or is a well-formed sketch whose weight grew by \<open>count * 2 ^ h\<close>.
  \<open>buffers_bounded\<close> and \<open>not_closed\<close> are the invariants behind the buffer bound and the
  queries before \<open>Close\<close>; \<open>items_satisfy Q\<close> says that every stored item satisfies \<open>Q\<close>.
\<close>

definition buffers_bounded :: "'a Compactor list \<Rightarrow> bool" where
  "buffers_bounded cs \<longleftrightarrow>
     list_all (\<lambda>c. 0 < cmp_k c \<and> length (buffer c) \<le> max_buffer_size c) cs"

definition not_closed :: "'a Sketch \<Rightarrow> bool" where
  "not_closed s \<longleftrightarrow> weighted_elements s = [] \<and> total_weight s = 0"

definition items_satisfy :: "('a \<Rightarrow> bool) \<Rightarrow> 'a Compactor list \<Rightarrow> bool" where
  "items_satisfy Q cs \<longleftrightarrow> list_all (\<lambda>c. list_all Q (buffer c)) cs"

definition items_count :: "'a Compactor list \<Rightarrow> nat" where
  "items_count cs = sum_list (map (\<lambda>c. length (buffer c)) cs)"

fun level_weight :: "'a Compactor list \<Rightarrow> nat \<Rightarrow> nat" where
  "level_weight [] h = 0"
| "level_weight (c # cs) h = 2 ^ h * length (buffer c) + level_weight cs (h + 1)"

definition well_formed :: "'a Sketch \<Rightarrow> bool" where
  "well_formed s \<longleftrightarrow>
     length (compactors s) = sk_H s + 1 \<and>
     0 < opt_k (options s) \<and> even (opt_k (options s)) \<and>
     opt_k (options s) < 2 * opt_n (options s) \<and>
     list_all (\<lambda>c. cmp_k c = opt_k (options s)) (compactors s) \<and>
     weighted_elements s = []"

definition conserving ::
  "'a Sketch \<Rightarrow> nat \<Rightarrow> nat \<Rightarrow> fault + ('a Sketch \<times> nat) \<Rightarrow> bool" where
  "conserving s count h r \<longleftrightarrow>
     r = Inl ScheduleExceedsBuffer \<or>
     (\<exists>s' pos'. r = Inr (s', pos') \<and> well_formed s' \<and> options s' = options s \<and>
        sk_H s \<le> sk_H s' \<and>
        items_count (compactors s') \<le> items_count (compactors s) + count \<and>
        level_weight (compactors s') 0 = level_weight (compactors s) 0 + count * 2 ^ h)"

section \<open>Properties of the compactor\<close>

declare take_every_other.simps [simp del]
declare count_sections.simps [simp del]
declare countr_one.simps [simp del]
declare ceil_log2_ratio.simps [simp del]

text \<open>
  The counting loop of the constructor computes the ceiling of the binary logarithm of
  \<open>n / k\<close> (and \<open>0\<close> where that is negative), the value of the floating-point expression
  of the source in exact arithmetic.
\<close>

lemma ceil_log2_ratio_bounds:
  assumes "0 < k"
  shows "m0 \<le> ceil_log2_ratio k n m0 \<and> n \<le> k * 2 ^ ceil_log2_ratio k n m0 \<and>
         (m0 < ceil_log2_ratio k n m0 \<longrightarrow> k * 2 ^ (ceil_log2_ratio k n m0 - 1) < n)"
  using assms
proof (induction k n m0 rule: ceil_log2_ratio.induct)
  case (1 k n m)
  show ?case
  proof (cases "k * 2 ^ m < n")
    case True
    with "1.prems" have eq: "ceil_log2_ratio k n m = ceil_log2_ratio k n (Suc m)"
      by (subst ceil_log2_ratio.simps) simp
    from True "1.prems" have ih: "Suc m \<le> ceil_log2_ratio k n (Suc m) \<and>
        n \<le> k * 2 ^ ceil_log2_ratio k n (Suc m) \<and>
        (Suc m < ceil_log2_ratio k n (Suc m) \<longrightarrow> k * 2 ^ (ceil_log2_ratio k n (Suc m) - 1) < n)"
      by (intro "1.IH") simp_all
    show ?thesis
    proof (cases "Suc m < ceil_log2_ratio k n (Suc m)")
      case True
      with ih show ?thesis by (simp add: eq)
    next
      case False
      with ih have "ceil_log2_ratio k n (Suc m) = Suc m" by simp
      with ih True show ?thesis by (simp add: eq)
    qed
  next
    case False
    then have "ceil_log2_ratio k n m = m" by (subst ceil_log2_ratio.simps) simp
    with False show ?thesis by simp
  qed
qed

lemma ceil_log2_ratio_log:
  assumes "0 < k" and "0 < n"
  shows "int (ceil_log2_ratio k n 0) = max 0 \<lceil>log 2 (real n / real k)\<rceil>"
proof -
  let ?m = "ceil_log2_ratio k n 0"
  let ?q = "real n / real k"
  have q: "0 < ?q" using assms by simp
  from ceil_log2_ratio_bounds [OF assms(1), of 0 n]
  have up: "n \<le> k * 2 ^ ?m" and lo: "0 < ?m \<longrightarrow> k * 2 ^ (?m - 1) < n" by simp_all
  from up have "real n \<le> real k * 2 ^ ?m" by (metis of_nat_le_iff of_nat_mult of_nat_numeral of_nat_power)
  then have "?q \<le> 2 ^ ?m" using assms(1) by (simp add: field_simps)
  then have le: "log 2 ?q \<le> real ?m"
    using q by (simp add: le_log2_of_power log_le_iff powr_realpow)
  show ?thesis
  proof (cases "0 < ?m")
    case True
    with lo have "real k * 2 ^ (?m - 1) < real n"
      by (metis of_nat_less_iff of_nat_mult of_nat_numeral of_nat_power)
    then have "2 ^ (?m - 1) < ?q" using assms(1) by (simp add: field_simps)
    then have "real (?m - 1) < log 2 ?q"
      using q by (simp add: less_log_iff powr_realpow)
    then have "real_of_int (int ?m) - 1 < log 2 ?q" using True by (simp add: of_nat_diff)
    moreover have "log 2 ?q \<le> real_of_int (int ?m)" using le by simp
    ultimately have "\<lceil>log 2 ?q\<rceil> = int ?m" by (rule ceiling_unique)
    then show ?thesis by simp
  next
    case False
    then have "?m = 0" by simp
    with le have "\<lceil>log 2 ?q\<rceil> \<le> 0" by (simp add: ceiling_le_iff)
    with \<open>?m = 0\<close> show ?thesis by simp
  qed
qed

lemma length_take_every_other:
  "length (take_every_other buf bound i out) = length out + (bound - i + 1) div 2"
proof (induction buf bound i out rule: take_every_other.induct)
  case (1 buf bound i out)
  show ?case
  proof (cases "i < bound")
    case True
    have "length (take_every_other buf bound i out) =
          length (take_every_other buf bound (i + 2) (out @ [buf ! i]))"
      using True by (subst take_every_other.simps) simp
    also have "\<dots> = length (out @ [buf ! i]) + (bound - (i + 2) + 1) div 2"
      using True by (rule "1.IH")
    also have "\<dots> = length out + (bound - i + 1) div 2"
      using True by (simp) arith
    finally show ?thesis .
  next
    case False
    then show ?thesis by (subst take_every_other.simps) simp
  qed
qed

lemma length_partial_sort_rev [simp]: "length (partial_sort_rev S xs) = length xs"
  by (simp add: partial_sort_rev_def Let_def)

lemma partial_sort_rev_sort: "partial_sort_rev S xs = sort xs"
  by (simp add: partial_sort_rev_def Let_def)

lemma count_sections_countr_one: "count_sections a c = a + countr_one c"
proof (induction a c rule: count_sections.induct)
  case (1 a c)
  show ?case
  proof (cases "odd c")
    case True
    then have "c AND 1 = 1" by (simp add: and_one_eq odd_iff_mod_2_eq_one)
    then have "count_sections a c = count_sections (a + 1) (drop_bit 1 c)"
      by (subst count_sections.simps) simp
    also have "\<dots> = a + 1 + countr_one (drop_bit 1 c)"
      using \<open>c AND 1 = 1\<close> by (rule "1.IH")
    also have "\<dots> = a + countr_one c"
      using True by (subst (2) countr_one.simps) (simp add: drop_bit_Suc)
    finally show ?thesis .
  next
    case False
    then have "c AND 1 \<noteq> 1" by (simp add: and_one_eq)
    then have "count_sections a c = a" by (subst count_sections.simps) simp
    moreover have "countr_one c = 0" using False by (subst countr_one.simps) simp
    ultimately show ?thesis by simp
  qed
qed

lemma sections_to_compact_countr_one: "sections_to_compact c = countr_one c + 1"
  by (simp add: sections_to_compact_def count_sections_countr_one)

lemma countr_one_bits: "i < countr_one c \<Longrightarrow> bit c i"
proof (induction c arbitrary: i rule: countr_one.induct)
  case (1 c)
  show ?case
  proof (cases "odd c")
    case True
    then have eq: "countr_one c = Suc (countr_one (c div 2))"
      by (subst countr_one.simps) simp
    show ?thesis
    proof (cases i)
      case 0
      then show ?thesis using True by (simp add: bit_0)
    next
      case (Suc j)
      with "1.prems" eq have "j < countr_one (c div 2)" by simp
      with True have "bit (c div 2) j" by (rule "1.IH")
      then show ?thesis using Suc by (simp add: bit_Suc)
    qed
  next
    case False
    then have "countr_one c = 0" by (subst countr_one.simps) simp
    with "1.prems" show ?thesis by simp
  qed
qed

lemma countr_one_stop: "\<not> bit c (countr_one c)"
proof (induction c rule: countr_one.induct)
  case (1 c)
  show ?case
  proof (cases "odd c")
    case True
    then have eq: "countr_one c = Suc (countr_one (c div 2))"
      by (subst countr_one.simps) simp
    from True have "\<not> bit (c div 2) (countr_one (c div 2))" by (rule "1.IH")
    then show ?thesis by (simp add: eq bit_Suc)
  next
    case False
    then have "countr_one c = 0" by (subst countr_one.simps) simp
    then show ?thesis using False by (simp add: bit_0)
  qed
qed

lemma sections_to_compact_pos: "0 < sections_to_compact c"
  by (simp add: sections_to_compact_def)

lemma compaction_Inl:
  "compaction coins (c, pos) = Inl e \<longleftrightarrow>
     e = ScheduleExceedsBuffer \<and> max_buffer_size c < elements_to_compact c"
  by (auto simp: compaction_def Let_def RandomBoolean_def split: if_splits)

lemma compaction_Inr:
  assumes "compaction coins (c, pos) = Inr (c', out, pos')"
  shows "elements_to_compact c \<le> max_buffer_size c"
    and "c' = c\<lparr>buffer := take (max_buffer_size c - elements_to_compact c) (sort (buffer c)),
                 cmp_C := cmp_C c + 1\<rparr>"
    and "pos' = Suc pos"
    and "length out =
           (max_buffer_size c -
              (if \<not> coins pos \<and> even (split_point c) then split_point c + 1 else split_point c)
            + 1) div 2"
  using assms
  by (auto simp: compaction_def Let_def RandomBoolean_def partial_sort_rev_sort
      length_take_every_other split: if_splits)

lemma compaction_length_out:
  assumes "compaction coins (c, pos) = Inr (c', out, pos')" and "even (cmp_k c)"
  shows "length out = elements_to_compact c div 2"
proof -
  let ?e = "elements_to_compact c" and ?m = "max_buffer_size c"
  have le: "?e \<le> ?m" using assms(1) by (rule compaction_Inr)
  have ev: "even ?e" using assms(2) by (simp add: elements_to_compact_def)
  have len: "length out =
      (?m - (if \<not> coins pos \<and> even (split_point c) then split_point c + 1 else split_point c)
        + 1) div 2"
    using assms(1) by (rule compaction_Inr)
  show ?thesis
  proof (cases "\<not> coins pos \<and> even (split_point c)")
    case True
    then have "length out = (?m - (?m - ?e + 1) + 1) div 2"
      using len by (simp add: split_point_def)
    also have "\<dots> = ?e div 2" using le ev by (cases "?e = 0") (auto elim!: evenE)
    finally show ?thesis .
  next
    case False
    then have "length out = (?m - (?m - ?e) + 1) div 2"
      using len by (auto simp add: split_point_def)
    also have "?m - (?m - ?e) = ?e" using le by simp
    also have "(?e + 1) div 2 = ?e div 2" using ev by (auto elim!: evenE)
    finally show ?thesis .
  qed
qed

lemma trailing_ones_countr_one: "trailing_ones c = countr_one c"
  unfolding trailing_ones_def
proof (rule Least_equality)
  show "\<not> bit c (countr_one c)" by (rule countr_one_stop)
next
  fix y assume "\<not> bit c y"
  then show "countr_one c \<le> y" using countr_one_bits [of y c] by (cases "y < countr_one c") auto
qed

lemma compaction_succeeds:
  "elements_to_compact c \<le> max_buffer_size c \<Longrightarrow>
     \<exists>c' out pos'. compaction coins (c, pos) = Inr (c', out, pos')"
  by (simp add: compaction_def Let_def RandomBoolean_def)

lemma Compactor_Insert_not_full:
  "length (buffer c) \<noteq> max_buffer_size c \<Longrightarrow>
     Compactor_Insert coins (c, pos) x = Inr (c\<lparr>buffer := buffer c @ [x]\<rparr>, [], pos)"
  by (simp add: Compactor_Insert_def)

lemma Compactor_Insert_full:
  "length (buffer c) = max_buffer_size c \<Longrightarrow>
     Compactor_Insert coins (c, pos) x =
       (case compaction coins (c, pos) of
          Inl e \<Rightarrow> Inl e
        | Inr (c', out, pos') \<Rightarrow> Inr (c'\<lparr>buffer := buffer c' @ [x]\<rparr>, out, pos'))"
  by (simp add: Compactor_Insert_def)

lemma Compactor_Insert_full_Inr:
  assumes "length (buffer c) = max_buffer_size c"
    and "Compactor_Insert coins (c, pos) x = Inr (c', out, pos')"
  shows "elements_to_compact c \<le> max_buffer_size c"
    and "c' = c\<lparr>buffer :=
                   take (max_buffer_size c - elements_to_compact c) (sort (buffer c)) @ [x],
                 cmp_C := cmp_C c + 1\<rparr>"
    and "pos' = Suc pos"
    and "even (cmp_k c) \<Longrightarrow> length out = elements_to_compact c div 2"
proof -
  from assms obtain c1 where c1: "compaction coins (c, pos) = Inr (c1, out, pos')"
    and c': "c' = c1\<lparr>buffer := buffer c1 @ [x]\<rparr>"
    by (auto simp: Compactor_Insert_full split: sum.splits)
  show "elements_to_compact c \<le> max_buffer_size c" using c1 by (rule compaction_Inr)
  show "pos' = Suc pos" using c1 by (rule compaction_Inr)
  show "c' = c\<lparr>buffer :=
                   take (max_buffer_size c - elements_to_compact c) (sort (buffer c)) @ [x],
                 cmp_C := cmp_C c + 1\<rparr>"
    using compaction_Inr(2) [OF c1] c' by simp
  show "even (cmp_k c) \<Longrightarrow> length out = elements_to_compact c div 2"
    using c1 by (rule compaction_length_out)
qed

lemma Compactor_Insert_full_length:
  assumes "length (buffer c) = max_buffer_size c"
    and "Compactor_Insert coins (c, pos) x = Inr (c', out, pos')"
  shows "length (buffer c') = max_buffer_size c - elements_to_compact c + 1"
  using Compactor_Insert_full_Inr(1,2) [OF assms] assms(1) by simp

lemma Compactor_Insert_fields:
  assumes "Compactor_Insert coins (c, pos) x = Inr (c', out, pos')"
  shows "cmp_k c' = cmp_k c" and "max_buffer_size c' = max_buffer_size c"
    and "cmp_n c' = cmp_n c" and "cmp_h c' = cmp_h c"
proof -
  have "cmp_k c' = cmp_k c \<and> max_buffer_size c' = max_buffer_size c \<and> cmp_n c' = cmp_n c
      \<and> cmp_h c' = cmp_h c"
  proof (cases "length (buffer c) = max_buffer_size c")
    case True
    then show ?thesis using Compactor_Insert_full_Inr(2) [OF True assms] by simp
  next
    case False
    then show ?thesis using assms by (auto simp: Compactor_Insert_not_full)
  qed
  then show "cmp_k c' = cmp_k c" and "max_buffer_size c' = max_buffer_size c"
    and "cmp_n c' = cmp_n c" and "cmp_h c' = cmp_h c" by simp_all
qed

lemma elements_to_compact_pos: "0 < cmp_k c \<Longrightarrow> 0 < elements_to_compact c"
  by (simp add: elements_to_compact_def sections_to_compact_pos)

lemma Compactor_Insert_bound:
  assumes "length (buffer c) \<le> max_buffer_size c" and "0 < cmp_k c"
    and "Compactor_Insert coins (c, pos) x = Inr (c', out, pos')"
  shows "length (buffer c') \<le> max_buffer_size c'"
proof (cases "length (buffer c) = max_buffer_size c")
  case True
  have "length (buffer c') = max_buffer_size c - elements_to_compact c + 1"
    using True assms(3) by (rule Compactor_Insert_full_length)
  moreover have "elements_to_compact c \<le> max_buffer_size c"
    using True assms(3) by (rule Compactor_Insert_full_Inr)
  moreover have "0 < elements_to_compact c" using assms(2) by (rule elements_to_compact_pos)
  ultimately show ?thesis using Compactor_Insert_fields(2) [OF assms(3)] by simp
next
  case False
  then show ?thesis using assms by (auto simp: Compactor_Insert_not_full)
qed

lemma compaction_cpp_unfold:
  "compaction_cpp coins (c, pos) =
     (if max_buffer_size c < elements_to_compact c \<or> elements_to_compact c = 0
      then Inl ScheduleExceedsBuffer
      else Inr (c\<lparr>buffer := take (max_buffer_size c - elements_to_compact c) (sort (buffer c)),
                  cmp_C := cmp_C c + 1\<rparr>,
                take_every_other (sort (buffer c)) (max_buffer_size c)
                  (if \<not> coins pos \<and> even (max_buffer_size c - elements_to_compact c)
                   then max_buffer_size c - elements_to_compact c + 1
                   else max_buffer_size c - elements_to_compact c) [],
                Suc pos))"
proof -
  have e: "(countr_one (cmp_C c) + 1) * cmp_k c = elements_to_compact c"
    by (simp add: elements_to_compact_def sections_to_compact_countr_one)
  show ?thesis
    unfolding compaction_cpp_def Let_def fst_conv snd_conv e
    by (auto simp: RandomBoolean_def partial_sort_rev_sort even_iff_mod_2_eq_zero)
qed

lemma compaction_cpp_Inr:
  assumes "compaction_cpp coins (c, pos) = Inr (c', out, pos')"
  shows "elements_to_compact c \<le> max_buffer_size c" and "0 < elements_to_compact c"
    and "length out =
           (max_buffer_size c -
              (if \<not> coins pos \<and> even (max_buffer_size c - elements_to_compact c)
               then max_buffer_size c - elements_to_compact c + 1
               else max_buffer_size c - elements_to_compact c)
            + 1) div 2"
proof -
  have ok: "\<not> (max_buffer_size c < elements_to_compact c \<or> elements_to_compact c = 0)"
    using assms by (auto simp: compaction_cpp_unfold split: if_splits)
  then show "elements_to_compact c \<le> max_buffer_size c" and "0 < elements_to_compact c"
    by auto
  have "out = take_every_other (sort (buffer c)) (max_buffer_size c)
                  (if \<not> coins pos \<and> even (max_buffer_size c - elements_to_compact c)
                   then max_buffer_size c - elements_to_compact c + 1
                   else max_buffer_size c - elements_to_compact c) []"
    using assms ok by (simp add: compaction_cpp_unfold)
  then show "length out =
           (max_buffer_size c -
              (if \<not> coins pos \<and> even (max_buffer_size c - elements_to_compact c)
               then max_buffer_size c - elements_to_compact c + 1
               else max_buffer_size c - elements_to_compact c)
            + 1) div 2"
    by (simp only: length_take_every_other list.size add_0)
qed

lemma compaction_cpp_succeeds:
  "elements_to_compact c \<le> max_buffer_size c \<Longrightarrow> 0 < cmp_k c \<Longrightarrow>
     \<exists>c' out pos'. compaction_cpp coins (c, pos) = Inr (c', out, pos')"
  by (simp add: compaction_cpp_def Let_def RandomBoolean_def elements_to_compact_def
      sections_to_compact_countr_one)

lemma walk_length_even:
  assumes "e \<le> m" and "even (e::nat)"
  shows "(m - (if b \<and> even (m - e) then m - e + 1 else m - e) + 1) div 2 = e div 2"
proof (cases "b \<and> even (m - e)")
  case True
  then have "(m - (if b \<and> even (m - e) then m - e + 1 else m - e) + 1) div 2 =
      (m - (m - e + 1) + 1) div 2" by simp
  also have "\<dots> = e div 2" using assms by (cases "e = 0") (auto elim!: evenE)
  finally show ?thesis .
next
  case False
  then have "(m - (if b \<and> even (m - e) then m - e + 1 else m - e) + 1) div 2 =
      (m - (m - e) + 1) div 2" by auto
  also have "m - (m - e) = e" using assms by simp
  also have "(e + 1) div 2 = e div 2" using assms by (auto elim!: evenE)
  finally show ?thesis .
qed

lemma compaction_cpp_length_out:
  assumes "compaction_cpp coins (c, pos) = Inr (c', out, pos')" and "even (cmp_k c)"
  shows "length out = elements_to_compact c div 2"
proof -
  have le: "elements_to_compact c \<le> max_buffer_size c" using assms(1) by (rule compaction_cpp_Inr)
  have ev: "even (elements_to_compact c)" using assms(2) by (simp add: elements_to_compact_def)
  have "length out =
           (max_buffer_size c -
              (if \<not> coins pos \<and> even (max_buffer_size c - elements_to_compact c)
               then max_buffer_size c - elements_to_compact c + 1
               else max_buffer_size c - elements_to_compact c)
            + 1) div 2"
    using assms(1) by (rule compaction_cpp_Inr)
  also have "\<dots> = elements_to_compact c div 2"
    using le ev by (rule walk_length_even)
  finally show ?thesis .
qed

section \<open>Properties of the sketch\<close>

lemma items_count_update:
  "i < length cs \<Longrightarrow>
     items_count (cs[i := c']) + length (buffer (cs ! i)) = items_count cs + length (buffer c')"
  unfolding items_count_def
proof (induction cs arbitrary: i)
  case Nil
  then show ?case by simp
next
  case (Cons c cs)
  show ?case
  proof (cases i)
    case 0
    then show ?thesis by simp
  next
    case (Suc j)
    with Cons.prems have "j < length cs" by simp
    from Cons.IH [OF this] Suc show ?thesis by simp
  qed
qed

lemma level_weight_update:
  "i < length cs \<Longrightarrow>
     level_weight (cs[i := c']) h + 2 ^ (h + i) * length (buffer (cs ! i)) =
     level_weight cs h + 2 ^ (h + i) * length (buffer c')"
proof (induction cs arbitrary: i h)
  case Nil
  then show ?case by simp
next
  case (Cons c cs)
  show ?case
  proof (cases i)
    case 0
    then show ?thesis by simp
  next
    case (Suc j)
    with Cons.prems have "j < length cs" by simp
    from Cons.IH [OF this, of "h + 1"] Suc show ?thesis by simp
  qed
qed

lemma items_count_append [simp]:
  "items_count (cs @ ds) = items_count cs + items_count ds"
  by (simp add: items_count_def)

lemma level_weight_append:
  "level_weight (cs @ ds) h = level_weight cs h + level_weight ds (h + length cs)"
  by (induction cs arbitrary: h) simp_all

lemma new_Compactor_Inr:
  "0 < k \<Longrightarrow> k < 2 * n \<Longrightarrow>
     \<exists>c. new_Compactor k n h = Inr c \<and> cmp_k c = k \<and> buffer c = [] \<and> cmp_C c = 0"
  by (simp add: new_Compactor_def Let_def)

lemma new_Compactor_fields:
  "new_Compactor k n h = Inr c \<Longrightarrow> cmp_k c = k \<and> 0 < k \<and> buffer c = [] \<and> cmp_C c = 0"
  by (auto simp: new_Compactor_def Let_def split: if_splits)

lemma create_level_well_formed:
  fixes s :: "'a Sketch"
  assumes "well_formed s" and "h \<le> sk_H s + 1"
  shows "\<exists>s1. create_level s h = Inr s1 \<and> well_formed s1 \<and> options s1 = options s \<and>
           sk_H s \<le> sk_H s1 \<and> h \<le> sk_H s1 \<and>
           items_count (compactors s1) = items_count (compactors s) \<and>
           level_weight (compactors s1) 0 = level_weight (compactors s) 0"
proof (cases "sk_H s < h")
  case True
  from assms(1) obtain c :: "'a Compactor" where c: "new_Compactor (opt_k (options s)) (opt_n (options s)) h = Inr c"
    and ck: "cmp_k c = opt_k (options s)" and cb: "buffer c = []"
    using new_Compactor_Inr [of "opt_k (options s)" "opt_n (options s)" h]
    by (auto simp: well_formed_def)
  let ?s1 = "s\<lparr>sk_H := h, compactors := compactors s @ [c]\<rparr>"
  have "create_level s h = Inr ?s1" using True c by (simp add: create_level_def)
  moreover have "well_formed ?s1"
    using assms True ck by (auto simp: well_formed_def)
  moreover have "items_count (compactors ?s1) = items_count (compactors s)"
    using cb by (simp add: items_count_def)
  moreover have "level_weight (compactors ?s1) 0 = level_weight (compactors s) 0"
    using cb by (simp add: level_weight_append)
  ultimately show ?thesis using True by auto
next
  case False
  then have "create_level s h = Inr s" by (simp add: create_level_def)
  then show ?thesis using False assms(1) by auto
qed

lemma well_formed_update:
  assumes "well_formed s" and "cmp_k c' = opt_k (options s)"
  shows "well_formed (s\<lparr>compactors := (compactors s)[i := c']\<rparr>)"
  using assms by (auto simp: well_formed_def list_all_iff dest: set_update_subset_insert [THEN subsetD])

lemma conserving_Inl: "conserving s count h (Inl ScheduleExceedsBuffer)"
  by (simp add: conserving_def)

lemma for_each_conserving:
  assumes step: "\<And>s pos x. well_formed s \<Longrightarrow> h \<le> sk_H s + 1 \<Longrightarrow>
      items_count (compactors s) < fuel \<Longrightarrow> conserving s 1 h (f (s, pos) x)"
  shows "well_formed s \<Longrightarrow> h \<le> sk_H s + 1 \<Longrightarrow>
      items_count (compactors s) + length xs \<le> fuel \<Longrightarrow>
      conserving s (length xs) h (for_each f xs (s, pos))"
proof (induction xs arbitrary: s pos)
  case Nil
  then show ?case by (simp add: conserving_def)
next
  case (Cons x xs)
  from Cons.prems have "items_count (compactors s) < fuel" by simp
  with Cons.prems have c1: "conserving s 1 h (f (s, pos) x)" by (intro step)
  show ?case
  proof (cases "f (s, pos) x")
    case (Inl e)
    with c1 have "e = ScheduleExceedsBuffer" by (simp add: conserving_def)
    with Inl show ?thesis by (simp add: conserving_def)
  next
    case (Inr sp1)
    obtain s1 p1 where sp1: "sp1 = (s1, p1)" by (cases sp1)
    from c1 Inr sp1 have wf1: "well_formed s1" and o1: "options s1 = options s"
      and h1: "sk_H s \<le> sk_H s1"
      and i1: "items_count (compactors s1) \<le> items_count (compactors s) + 1"
      and w1: "level_weight (compactors s1) 0 = level_weight (compactors s) 0 + 1 * 2 ^ h"
      by (auto simp: conserving_def)
    have "conserving s1 (length xs) h (for_each f xs (s1, p1))"
      using wf1 h1 i1 Cons.prems by (intro Cons.IH) auto
    moreover have "for_each f (x # xs) (s, pos) = for_each f xs (s1, p1)"
      using Inr sp1 by simp
    ultimately show ?thesis
      using o1 h1 i1 w1 by (auto simp: conserving_def algebra_simps)
  qed
qed

declare Insert.simps(2) [simp del]

lemma well_formed_nth_k:
  "well_formed s \<Longrightarrow> h < length (compactors s) \<Longrightarrow>
     cmp_k (compactors s ! h) = opt_k (options s)"
  by (simp add: well_formed_def list_all_length)

lemma Insert_conserving:
  "well_formed s \<Longrightarrow> h \<le> sk_H s + 1 \<Longrightarrow> items_count (compactors s) < fuel \<Longrightarrow>
     conserving s 1 h (Insert fuel coins (s, pos) x h)"
proof (induction fuel arbitrary: s pos x h)
  case 0
  then show ?case by simp
next
  case (Suc fuel)
  from create_level_well_formed [OF Suc.prems(1,2)] obtain s1 where
    cl: "create_level s h = Inr s1" and wf1: "well_formed s1" and o1: "options s1 = options s"
    and H1: "sk_H s \<le> sk_H s1" and h1: "h \<le> sk_H s1"
    and i1: "items_count (compactors s1) = items_count (compactors s)"
    and w1: "level_weight (compactors s1) 0 = level_weight (compactors s) 0"
    by blast
  from wf1 h1 have hl: "h < length (compactors s1)" by (simp add: well_formed_def)
  let ?c = "compactors s1 ! h"
  have ck: "cmp_k ?c = opt_k (options s1)" using wf1 hl by (rule well_formed_nth_k)
  have kpos: "0 < cmp_k ?c" and kev: "even (cmp_k ?c)"
    using ck wf1 by (simp_all add: well_formed_def)
  have unfold: "Insert (Suc fuel) coins (s, pos) x h =
      (case Compactor_Insert coins (?c, pos) x of
         Inl e \<Rightarrow> Inl e
       | Inr (c', output_stream, pos') \<Rightarrow>
           for_each (\<lambda>st t. Insert fuel coins st t (h + 1)) output_stream
             (s1\<lparr>compactors := (compactors s1)[h := c']\<rparr>, pos'))"
    using cl hl by (simp add: Insert.simps(2))
  show ?case
  proof (cases "length (buffer ?c) = max_buffer_size ?c")
    case False
    let ?c' = "?c\<lparr>buffer := buffer ?c @ [x]\<rparr>"
    let ?s2 = "s1\<lparr>compactors := (compactors s1)[h := ?c']\<rparr>"
    have r: "Insert (Suc fuel) coins (s, pos) x h = Inr (?s2, pos)"
      using False by (simp add: unfold Compactor_Insert_not_full)
    have wf2: "well_formed ?s2" using wf1 ck by (intro well_formed_update) simp_all
    have "items_count (compactors ?s2) = items_count (compactors s1) + 1"
      using items_count_update [OF hl, of ?c'] by simp
    moreover have "level_weight (compactors ?s2) 0 = level_weight (compactors s1) 0 + 2 ^ h"
      using level_weight_update [OF hl, of ?c' 0] by simp
    ultimately show ?thesis
      using r wf2 o1 H1 i1 w1 by (simp add: conserving_def)
  next
    case True
    show ?thesis
    proof (cases "Compactor_Insert coins (?c, pos) x")
      case (Inl e)
      then have "e = ScheduleExceedsBuffer"
        using True by (auto simp: Compactor_Insert_full compaction_Inl split: sum.splits)
      then show ?thesis using Inl by (simp add: unfold conserving_def)
    next
      case (Inr res)
      obtain c' out pos' where res: "res = (c', out, pos')" by (cases res)
      let ?e = "elements_to_compact ?c" and ?m = "max_buffer_size ?c"
      let ?s2 = "s1\<lparr>compactors := (compactors s1)[h := c']\<rparr>"
      have ci: "Compactor_Insert coins (?c, pos) x = Inr (c', out, pos')"
        using Inr res by simp
      have le: "?e \<le> ?m" using True ci by (rule Compactor_Insert_full_Inr)
      have lo: "length out = ?e div 2"
        using Compactor_Insert_full_Inr(4) [OF True ci kev] .
      have lb: "length (buffer c') = ?m - ?e + 1"
        using True ci by (rule Compactor_Insert_full_length)
      have ck': "cmp_k c' = opt_k (options s1)"
        using Compactor_Insert_fields(1) [OF ci] ck by simp
      have epos: "0 < ?e" using kpos by (rule elements_to_compact_pos)
      have eev: "even ?e" using kev by (simp add: elements_to_compact_def)
      from epos eev have e2: "?e div 2 + ?e div 2 = ?e" and e1: "1 \<le> ?e div 2"
        by (auto elim!: evenE)
      have wf2: "well_formed ?s2" using wf1 ck' by (rule well_formed_update)
      have i2: "items_count (compactors ?s2) + ?m = items_count (compactors s1) + (?m - ?e + 1)"
        using items_count_update [OF hl, of c'] True lb by simp
      have w2: "level_weight (compactors ?s2) 0 + 2 ^ h * ?m =
          level_weight (compactors s1) 0 + 2 ^ h * (?m - ?e + 1)"
        using level_weight_update [OF hl, of c' 0] True lb by simp
      have fuel_ok: "items_count (compactors ?s2) + length out \<le> fuel"
        using i2 i1 Suc.prems(3) le lo e2 e1 by linarith
      have rec: "conserving ?s2 (length out) (h + 1)
          (for_each (\<lambda>st t. Insert fuel coins st t (h + 1)) out (?s2, pos'))"
      proof (rule for_each_conserving)
        fix s' :: "'a Sketch" and p' x'
        assume "well_formed s'" "h + 1 \<le> sk_H s' + 1" "items_count (compactors s') < fuel"
        then show "conserving s' 1 (h + 1) (Insert fuel coins (s', p') x' (h + 1))"
          by (rule Suc.IH)
      next
        show "well_formed ?s2" by (rule wf2)
        show "h + 1 \<le> sk_H ?s2 + 1" using h1 by simp
        show "items_count (compactors ?s2) + length out \<le> fuel" by (rule fuel_ok)
      qed
      have r: "Insert (Suc fuel) coins (s, pos) x h =
          for_each (\<lambda>st t. Insert fuel coins st t (h + 1)) out (?s2, pos')"
        using ci by (simp add: unfold)
      show ?thesis
      proof (cases "for_each (\<lambda>st t. Insert fuel coins st t (h + 1)) out (?s2, pos')")
        case (Inl e)
        with rec have "e = ScheduleExceedsBuffer" by (simp add: conserving_def)
        with Inl r show ?thesis by (simp add: conserving_def)
      next
        case (Inr sp3)
        obtain s3 p3 where sp3: "sp3 = (s3, p3)" by (cases sp3)
        from rec Inr sp3 have wf3: "well_formed s3" and o3: "options s3 = options ?s2"
          and H3: "sk_H ?s2 \<le> sk_H s3"
          and i3: "items_count (compactors s3) \<le> items_count (compactors ?s2) + length out"
          and w3: "level_weight (compactors s3) 0 =
              level_weight (compactors ?s2) 0 + length out * 2 ^ (h + 1)"
          by (auto simp: conserving_def)
        have "items_count (compactors s3) \<le> items_count (compactors s) + 1"
          using i3 i2 i1 le lo e2 e1 by linarith
        moreover have "level_weight (compactors s3) 0 = level_weight (compactors s) 0 + 1 * 2 ^ h"
        proof -
          have "2 * length out = ?e" using lo e2 by simp
          then have "2 ^ h * ?e = 2 ^ h * (2 * length out)" by simp
          then have a: "length out * 2 ^ (h + 1) = 2 ^ h * ?e"
            by (simp add: mult.commute mult.left_commute)
          have "(?m - ?e + 1) + ?e = ?m + 1" using le by simp
          then have d: "2 ^ h * (?m - ?e + 1) + 2 ^ h * ?e = 2 ^ h * (?m + 1)"
            by (metis distrib_left)
          have f: "(2::nat) ^ h * (?m + 1) = 2 ^ h * ?m + 2 ^ h" by simp
          have "level_weight (compactors s3) 0 + 2 ^ h * ?m =
              level_weight (compactors s1) 0 + 2 ^ h + 2 ^ h * ?m"
            using w3 w2 a d f by linarith
          then show ?thesis using w1 by simp
        qed
        ultimately show ?thesis
          using Inr sp3 r wf3 o3 o1 H3 H1 by (simp add: conserving_def)
      qed
    qed
  qed
qed

lemma foldl_weight: "foldl (\<lambda>d element. d + weight element) a ws = a + sum_list (map weight ws)"
  by (induction ws arbitrary: a) simp_all

lemma accumulate_weight_sum: "accumulate_weight ws = sum_list (map weight ws)"
  by (simp add: accumulate_weight_def foldl_weight)

lemma sum_weight_insort:
  "sum_list (map weight (insort_key f w ws)) = weight w + sum_list (map weight ws)"
  by (induction ws) simp_all

lemma sum_weight_sort: "sum_list (map weight (sort_key f ws)) = sum_list (map weight ws)"
  by (induction ws) (simp_all add: sum_weight_insort)

lemma transform_buffer_Inr:
  "list_all (\<lambda>t. \<not> is_empty t) ts \<Longrightarrow>
     transform_buffer is_empty w ts = Inr (map (\<lambda>t. \<lparr>item = t, weight = w\<rparr>) ts)"
  by (induction ts) simp_all

lemma sum_weight_level:
  "sum_list (map weight (map (\<lambda>t. \<lparr>item = t, weight = 2 ^ h\<rparr>) buf)) = 2 ^ h * real (length buf)"
  by (induction buf) (simp_all add: algebra_simps)

lemma sum_weight_collect:
  "items_satisfy (\<lambda>t. \<not> is_empty t) cs \<Longrightarrow>
     \<exists>ws. collect_weighted is_empty cs h acc = Inr ws \<and>
          sum_list (map weight ws) = sum_list (map weight acc) + real (level_weight cs h)"
proof (induction cs arbitrary: h acc)
  case Nil
  then show ?case by simp
next
  case (Cons c cs)
  from Cons.prems have c: "list_all (\<lambda>t. \<not> is_empty t) (buffer c)"
    and cs: "items_satisfy (\<lambda>t. \<not> is_empty t) cs"
    by (simp_all add: items_satisfy_def)
  let ?ws = "map (\<lambda>t. \<lparr>item = t, weight = 2 ^ h\<rparr>) (buffer c)"
  have step: "collect_weighted is_empty (c # cs) h acc = collect_weighted is_empty cs (h + 1) (acc @ ?ws)"
    using transform_buffer_Inr [OF c, of "2 ^ h"] by simp
  from Cons.IH [OF cs, of "h + 1" "acc @ ?ws"] obtain ws where
    r: "collect_weighted is_empty cs (h + 1) (acc @ ?ws) = Inr ws"
    and w: "sum_list (map weight ws) =
        sum_list (map weight (acc @ ?ws)) + real (level_weight cs (h + 1))"
    by blast
  have "sum_list (map weight ws) =
      sum_list (map weight acc) + real (level_weight (c # cs) h)"
    using w sum_weight_level [of h "buffer c"] by simp
  with r step show ?case by simp
qed

lemma Close_total_weight:
  assumes "well_formed s" and "items_satisfy (\<lambda>t. \<not> is_empty t) (compactors s)"
  shows "\<exists>s'. Close is_empty s = Inr s' \<and> TotalWeight s' = real (level_weight (compactors s) 0)"
proof -
  from assms(1) have H: "sk_H s + 1 = length (compactors s)" and w: "weighted_elements s = []"
    by (simp_all add: well_formed_def)
  from sum_weight_collect [OF assms(2), of 0 "weighted_elements s"] obtain ws where
    "collect_weighted is_empty (compactors s) 0 (weighted_elements s) = Inr ws"
    and "sum_list (map weight ws) = real (level_weight (compactors s) 0)"
    using w by auto
  then show ?thesis
    using H by (simp add: Close_def Let_def TotalWeight_def accumulate_weight_sum sum_weight_sort)
qed

lemma new_Sketch_well_formed:
  assumes "0 < opt_k opts" and "even (opt_k opts)" and "opt_k opts \<le> opt_n opts"
    and "new_Sketch opts = Inr s0"
  shows "well_formed s0" and "items_count (compactors s0) = 0"
    and "level_weight (compactors s0) 0 = 0" and "sk_H s0 = 0"
proof -
  from assms(4) obtain c where c: "new_Compactor (opt_k opts) (opt_n opts) 0 = Inr c"
    and s0: "s0 = \<lparr>options = opts, sk_H = 0, compactors = [c], weighted_elements = [],
                    total_weight = 0\<rparr>"
    by (auto simp: new_Sketch_def split: sum.splits)
  from c have ck: "cmp_k c = opt_k opts" and cb: "buffer c = []"
    using new_Compactor_fields by blast+
  show "well_formed s0" using assms(1-3) ck by (simp add: s0 well_formed_def)
  show "items_count (compactors s0) = 0" using cb by (simp add: s0 items_count_def)
  show "level_weight (compactors s0) 0 = 0" using cb by (simp add: s0)
  show "sk_H s0 = 0" by (simp add: s0)
qed

lemma Insert_all_for_each:
  "Insert_all fuel coins sp xs = for_each (\<lambda>st x. Insert fuel coins st x 0) xs sp"
  unfolding Insert_all_def Insert_calls_def
  by (induction xs arbitrary: sp) (simp_all split: sum.splits)

declare lower_bound.simps [simp del]

lemma for_each_invariant:
  assumes "for_each f xs st = Inr st'" and "P st"
    and "\<And>st x st'. P st \<Longrightarrow> f st x = Inr st' \<Longrightarrow> P st'"
  shows "P st'"
  using assms(1,2)
proof (induction xs arbitrary: st)
  case Nil
  then show ?case by simp
next
  case (Cons x xs)
  from Cons.prems(1) obtain st1 where s1: "f st x = Inr st1" and r: "for_each f xs st1 = Inr st'"
    by (auto split: sum.splits)
  from Cons.prems(2) s1 have "P st1" by (rule assms(3))
  with r show ?case by (rule Cons.IH)
qed

lemma Insert_invariant:
  assumes cl: "\<And>s h s1. P s \<Longrightarrow> create_level s h = Inr s1 \<Longrightarrow> P s1"
    and up: "\<And>s h pos x c' out pos'. P s \<Longrightarrow> h < length (compactors s) \<Longrightarrow>
        Compactor_Insert coins (compactors s ! h, pos) x = Inr (c', out, pos') \<Longrightarrow>
        P (s\<lparr>compactors := (compactors s)[h := c']\<rparr>)"
  shows "Insert fuel coins sp x h = Inr sp' \<Longrightarrow> P (fst sp) \<Longrightarrow> P (fst sp')"
proof (induction fuel arbitrary: sp x h sp')
  case 0
  then show ?case by simp
next
  case (Suc fuel)
  from Suc.prems(1) obtain s1 c' out pos' where
    c: "create_level (fst sp) h = Inr s1" and hl: "h < length (compactors s1)"
    and ci: "Compactor_Insert coins (compactors s1 ! h, snd sp) x = Inr (c', out, pos')"
    and fe: "for_each (\<lambda>st t. Insert fuel coins st t (h + 1)) out
               (s1\<lparr>compactors := (compactors s1)[h := c']\<rparr>, pos') = Inr sp'"
    by (auto simp: Insert.simps(2) split: sum.splits if_splits)
  have "P s1" using Suc.prems(2) c by (rule cl)
  then have "P (s1\<lparr>compactors := (compactors s1)[h := c']\<rparr>)" using hl ci by (rule up)
  then have p2: "P (fst (s1\<lparr>compactors := (compactors s1)[h := c']\<rparr>, pos'))" by simp
  show ?case
    using fe p2
  proof (rule for_each_invariant [where P = "\<lambda>st. P (fst st)"])
    fix st t st'
    assume "P (fst st)" and "Insert fuel coins st t (h + 1) = Inr st'"
    then show "P (fst st')" using Suc.IH by blast
  qed
qed

lemma Insert_calls_invariant:
  assumes cl: "\<And>s h s1. P s \<Longrightarrow> create_level s h = Inr s1 \<Longrightarrow> P s1"
    and up: "\<And>s h pos x c' out pos'. P s \<Longrightarrow> h < length (compactors s) \<Longrightarrow>
        Compactor_Insert coins (compactors s ! h, pos) x = Inr (c', out, pos') \<Longrightarrow>
        P (s\<lparr>compactors := (compactors s)[h := c']\<rparr>)"
    and run: "Insert_calls fuel coins (s0, pos) calls = Inr (s, pos')" and init: "P s0"
  shows "P s"
proof -
  have "P (fst (s, pos'))"
    using run [unfolded Insert_calls_def]
  proof (rule for_each_invariant [where P = "\<lambda>st. P (fst st)"])
    show "P (fst (s0, pos))" using init by simp
  next
    fix st call st'
    assume a: "P (fst st)" and b: "Insert fuel coins st (fst call) (snd call) = Inr st'"
    show "P (fst st')"
    proof (rule Insert_invariant [where P = P, OF _ _ b a])
      fix s :: "'a Sketch" and h s1
      assume "P s" and "create_level s h = Inr s1"
      then show "P s1" by (rule cl)
    next
      fix s :: "'a Sketch" and h pos x c' out pos'
      assume "P s" and "h < length (compactors s)"
        and "Compactor_Insert coins (compactors s ! h, pos) x = Inr (c', out, pos')"
      then show "P (s\<lparr>compactors := (compactors s)[h := c']\<rparr>)" by (rule up)
    qed
  qed
  then show ?thesis by simp
qed

lemma buffers_bounded_create_level:
  assumes "buffers_bounded (compactors s)" and "create_level s h = Inr s1"
  shows "buffers_bounded (compactors s1)"
proof (cases "sk_H s < h")
  case True
  with assms(2) obtain c where
    c: "new_Compactor (opt_k (options s)) (opt_n (options s)) h = Inr c"
    and s1: "s1 = s\<lparr>sk_H := h, compactors := compactors s @ [c]\<rparr>"
    by (auto simp: create_level_def split: sum.splits)
  from c have "0 < cmp_k c" and "buffer c = []" using new_Compactor_fields by fastforce+
  with assms(1) show ?thesis by (simp add: s1 buffers_bounded_def)
next
  case False
  with assms show ?thesis by (simp add: create_level_def)
qed

lemma buffers_bounded_update:
  assumes "buffers_bounded cs" and "h < length cs"
    and "Compactor_Insert coins (cs ! h, pos) x = Inr (c', out, pos')"
  shows "buffers_bounded (cs[h := c'])"
proof -
  from assms(1,2) have k: "0 < cmp_k (cs ! h)"
    and b: "length (buffer (cs ! h)) \<le> max_buffer_size (cs ! h)"
    by (simp_all add: buffers_bounded_def list_all_length)
  have "length (buffer c') \<le> max_buffer_size c'" using b k assms(3) by (rule Compactor_Insert_bound)
  moreover have "0 < cmp_k c'" using Compactor_Insert_fields(1) [OF assms(3)] k by simp
  ultimately show ?thesis
    using assms(1) by (auto simp: buffers_bounded_def list_all_iff
        dest: set_update_subset_insert [THEN subsetD])
qed

lemma not_closed_create_level:
  "not_closed s \<Longrightarrow> create_level s h = Inr s1 \<Longrightarrow> not_closed s1"
  by (auto simp: create_level_def not_closed_def split: if_splits sum.splits)

lemma set_take_every_other:
  "bound \<le> length buf \<Longrightarrow> set (take_every_other buf bound i out) \<subseteq> set out \<union> set buf"
proof (induction buf bound i out rule: take_every_other.induct)
  case (1 buf bound i out)
  show ?case
  proof (cases "i < bound")
    case True
    then have eq: "take_every_other buf bound i out =
        take_every_other buf bound (i + 2) (out @ [buf ! i])"
      by (subst take_every_other.simps) simp
    from True "1.prems" have "buf ! i \<in> set buf" by simp
    moreover have "set (take_every_other buf bound (i + 2) (out @ [buf ! i]))
        \<subseteq> set (out @ [buf ! i]) \<union> set buf"
      using True "1.prems" by (rule "1.IH")
    ultimately show ?thesis by (auto simp: eq)
  next
    case False
    then show ?thesis by (subst take_every_other.simps) simp
  qed
qed

lemma compaction_items:
  assumes "compaction coins (c, pos) = Inr (c', out, pos')"
    and "length (buffer c) = max_buffer_size c"
  shows "set out \<subseteq> set (buffer c)" and "set (buffer c') \<subseteq> set (buffer c)"
proof -
  from assms(1) obtain i where
    out: "out = take_every_other (sort (buffer c)) (max_buffer_size c) i []"
    by (auto simp: compaction_def Let_def RandomBoolean_def partial_sort_rev_sort
        split: if_splits)
  have "set (take_every_other (sort (buffer c)) (max_buffer_size c) i [])
      \<subseteq> set [] \<union> set (sort (buffer c))"
    by (rule set_take_every_other) (simp add: assms(2))
  then show "set out \<subseteq> set (buffer c)" by (simp add: out)
  show "set (buffer c') \<subseteq> set (buffer c)"
    using compaction_Inr(2) [OF assms(1)] set_take_subset [of _ "sort (buffer c)"] by simp
qed

lemma Compactor_Insert_items:
  assumes "Compactor_Insert coins (c, pos) x = Inr (c', out, pos')"
    and "list_all Q (buffer c)" and "Q x"
  shows "list_all Q (buffer c')" and "list_all Q out"
proof -
  have "set (buffer c') \<subseteq> insert x (set (buffer c)) \<and> set out \<subseteq> set (buffer c)"
  proof (cases "length (buffer c) = max_buffer_size c")
    case True
    from assms(1) True obtain c1 where c1: "compaction coins (c, pos) = Inr (c1, out, pos')"
      and c': "c' = c1\<lparr>buffer := buffer c1 @ [x]\<rparr>"
      by (auto simp: Compactor_Insert_full split: sum.splits)
    from compaction_items [OF c1 True] c' show ?thesis by auto
  next
    case False
    with assms(1) show ?thesis by (auto simp: Compactor_Insert_not_full)
  qed
  with assms(2,3) show "list_all Q (buffer c')" and "list_all Q out"
    by (auto simp: list_all_iff)
qed

lemma for_each_invariant_members:
  assumes "for_each f xs st = Inr st'" and "P st"
    and "\<And>st x st'. x \<in> set xs \<Longrightarrow> P st \<Longrightarrow> f st x = Inr st' \<Longrightarrow> P st'"
  shows "P st'"
  using assms
proof (induction xs arbitrary: st)
  case Nil
  then show ?case by simp
next
  case (Cons x xs)
  from Cons.prems(1) obtain st1 where s1: "f st x = Inr st1" and r: "for_each f xs st1 = Inr st'"
    by (auto split: sum.splits)
  have "P st1" using Cons.prems(2) s1 by (intro Cons.prems(3) [of x st st1]) simp_all
  with r show ?case by (rule Cons.IH) (auto intro: Cons.prems(3))
qed

lemma items_satisfy_create_level:
  assumes "items_satisfy Q (compactors s)" and "create_level s h = Inr s1"
  shows "items_satisfy Q (compactors s1)"
proof (cases "sk_H s < h")
  case True
  with assms(2) obtain c where
    c: "new_Compactor (opt_k (options s)) (opt_n (options s)) h = Inr c"
    and s1: "s1 = s\<lparr>sk_H := h, compactors := compactors s @ [c]\<rparr>"
    by (auto simp: create_level_def split: sum.splits)
  from c have "buffer c = []" using new_Compactor_fields by fastforce
  with assms(1) show ?thesis by (simp add: s1 items_satisfy_def)
next
  case False
  with assms show ?thesis by (simp add: create_level_def)
qed

lemma Insert_items:
  "Insert fuel coins sp x h = Inr sp' \<Longrightarrow> Q x \<Longrightarrow> items_satisfy Q (compactors (fst sp)) \<Longrightarrow>
     items_satisfy Q (compactors (fst sp'))"
proof (induction fuel arbitrary: sp x h sp')
  case 0
  then show ?case by simp
next
  case (Suc fuel)
  from Suc.prems(1) obtain s1 c' out pos' where
    c: "create_level (fst sp) h = Inr s1" and hl: "h < length (compactors s1)"
    and ci: "Compactor_Insert coins (compactors s1 ! h, snd sp) x = Inr (c', out, pos')"
    and fe: "for_each (\<lambda>st t. Insert fuel coins st t (h + 1)) out
               (s1\<lparr>compactors := (compactors s1)[h := c']\<rparr>, pos') = Inr sp'"
    by (auto simp: Insert.simps(2) split: sum.splits if_splits)
  have q1: "items_satisfy Q (compactors s1)" using Suc.prems(3) c by (rule items_satisfy_create_level)
  then have "list_all Q (buffer (compactors s1 ! h))"
    using hl by (simp add: items_satisfy_def list_all_length)
  with ci have b: "list_all Q (buffer c')" and o: "list_all Q out"
    using Suc.prems(2) by (auto dest: Compactor_Insert_items)
  have q2: "items_satisfy Q ((compactors s1)[h := c'])"
    using q1 b by (auto simp: items_satisfy_def list_all_iff
        dest: set_update_subset_insert [THEN subsetD])
  show ?case
    using fe
  proof (rule for_each_invariant_members [where P = "\<lambda>st. items_satisfy Q (compactors (fst st))"])
    show "items_satisfy Q (compactors (fst (s1\<lparr>compactors := (compactors s1)[h := c']\<rparr>, pos')))"
      using q2 by simp
  next
    fix st t st'
    assume "t \<in> set out" and "items_satisfy Q (compactors (fst st))"
      and "Insert fuel coins st t (h + 1) = Inr st'"
    moreover from \<open>t \<in> set out\<close> o have "Q t" by (simp add: list_all_iff)
    ultimately show "items_satisfy Q (compactors (fst st'))" using Suc.IH by blast
  qed
qed

lemma Insert_all_items:
  assumes "Insert_all fuel coins (s0, pos) xs = Inr (s, pos')" and "list_all Q xs"
    and "items_satisfy Q (compactors s0)"
  shows "items_satisfy Q (compactors s)"
proof -
  have "items_satisfy Q (compactors (fst (s, pos')))"
    using assms(1) [unfolded Insert_all_for_each]
  proof (rule for_each_invariant_members [where P = "\<lambda>st. items_satisfy Q (compactors (fst st))"])
    show "items_satisfy Q (compactors (fst (s0, pos)))" using assms(3) by simp
  next
    fix st x st'
    assume "x \<in> set xs" and "items_satisfy Q (compactors (fst st))"
      and "Insert fuel coins st x 0 = Inr st'"
    moreover from \<open>x \<in> set xs\<close> assms(2) have "Q x" by (simp add: list_all_iff)
    ultimately show "items_satisfy Q (compactors (fst st'))" using Insert_items by blast
  qed
  then show ?thesis by simp
qed

section \<open>Claims\<close>

text \<open>
  Claim C1, as stated, fails. \<open>Close\<close> asserts \<open>!t.empty()\<close> of every stored item: after
  \<open>Insert("", 0)\<close> into a sketch of strings (\<open>k = 2\<close>, \<open>n = 8\<close>) the assertion fails and
  \<open>total_weight\<close> is never set to \<open>N = 1\<close>.
\<close>

theorem weight_conservation_counterexample:
  "new_Sketch \<lparr>opt_n = 8, opt_k = 2\<rparr> = Inr (string_sketch 0 [string_compactor_at 0 0 []]) \<and>
   Insert_all 2 coins_true (string_sketch 0 [string_compactor_at 0 0 []], 0) [''''] =
     Inr (string_sketch 0 [string_compactor_at 0 0 ['''']], 0) \<and>
   Close string_empty (string_sketch 0 [string_compactor_at 0 0 ['''']]) = Inl AssertionFailed \<and>
   TotalWeight (string_sketch 0 [string_compactor_at 0 0 ['''']]) \<noteq> 1"
  by code_simp

text \<open>
  Claim C1, amended. A sketch built from valid options (\<open>k\<close> positive and even, \<open>n \<ge> k\<close>)
  ingests \<open>N\<close> items at level \<open>0\<close>, none of them empty. Unless a compaction schedule
  prescribes more than \<open>max_buffer_size\<close> items, every insert returns (a recursion bound
  above \<open>N\<close> is never reached), \<open>Close\<close> passes its assertions and \<open>total_weight\<close> is exactly
  \<open>N\<close>, for every coin oracle.
\<close>

theorem weight_conservation:
  assumes "0 < opt_k opts" and "even (opt_k opts)" and "opt_k opts \<le> opt_n opts"
    and "new_Sketch opts = Inr s0"
    and "length xs < fuel"
    and "Insert_all fuel coins (s0, pos) xs \<noteq> Inl ScheduleExceedsBuffer"
    and "\<forall>x \<in> set xs. \<not> is_empty x"
  shows "\<exists>s pos' s'. Insert_all fuel coins (s0, pos) xs = Inr (s, pos') \<and>
           Close is_empty s = Inr s' \<and> TotalWeight s' = real (length xs)"
proof -
  have wf0: "well_formed s0" and i0: "items_count (compactors s0) = 0"
    and w0: "level_weight (compactors s0) 0 = 0"
    using assms(1-4) by (rule new_Sketch_well_formed)+
  have "conserving s0 (length xs) 0 (for_each (\<lambda>st x. Insert fuel coins st x 0) xs (s0, pos))"
  proof (rule for_each_conserving)
    fix s :: "'a Sketch" and p x
    assume "well_formed s" "0 \<le> sk_H s + 1" "items_count (compactors s) < fuel"
    then show "conserving s 1 0 (Insert fuel coins (s, p) x 0)" by (rule Insert_conserving)
  next
    show "well_formed s0" by (rule wf0)
    show "0 \<le> sk_H s0 + 1" by simp
    show "items_count (compactors s0) + length xs \<le> fuel" using i0 assms(5) by simp
  qed
  then have "conserving s0 (length xs) 0 (Insert_all fuel coins (s0, pos) xs)"
    by (simp add: Insert_all_for_each)
  with assms(6) obtain s pos' where r: "Insert_all fuel coins (s0, pos) xs = Inr (s, pos')"
    and wf: "well_formed s" and w: "level_weight (compactors s) 0 = length xs"
    using w0 by (auto simp: conserving_def)
  from assms(4) obtain c0 where "new_Compactor (opt_k opts) (opt_n opts) 0 = Inr c0"
    and "compactors s0 = [c0]"
    by (auto simp: new_Sketch_def split: sum.splits)
  then have "items_satisfy (\<lambda>t. \<not> is_empty t) (compactors s0)"
    using new_Compactor_fields [of "opt_k opts" "opt_n opts" 0 c0]
    by (simp add: items_satisfy_def)
  with r assms(7) have "items_satisfy (\<lambda>t. \<not> is_empty t) (compactors s)"
    by (intro Insert_all_items [OF r]) (simp_all add: list_all_iff)
  from Close_total_weight [OF wf this] w obtain s' where
    "Close is_empty s = Inr s'" and "TotalWeight s' = real (length xs)" by auto
  with r show ?thesis by blast
qed

theorem weight_conservation_witness:
  "0 < opt_k \<lparr>opt_n = 8, opt_k = 2\<rparr> \<and> even (opt_k \<lparr>opt_n = 8, opt_k = 2\<rparr>) \<and>
   opt_k \<lparr>opt_n = 8, opt_k = 2\<rparr> \<le> opt_n \<lparr>opt_n = 8, opt_k = 2\<rparr> \<and>
   new_Sketch \<lparr>opt_n = 8, opt_k = 2\<rparr> = Inr (string_sketch 0 [string_compactor_at 0 0 []]) \<and>
   length [''a'', ''b'', ''c'', ''d'', ''e'', ''f'', ''g'', ''h'', ''i'', ''j'', ''k''] < 12 \<and>
   Insert_all 12 coins_false (string_sketch 0 [string_compactor_at 0 0 []], 0)
       [''a'', ''b'', ''c'', ''d'', ''e'', ''f'', ''g'', ''h'', ''i'', ''j'', ''k''] =
     Inr (string_sketch 1 [string_compactor_at 0 2 [''a'', ''b'', ''c'', ''d'', ''k''],
                           string_compactor_at 1 0 [''h'', ''f'', ''j'']], 2) \<and>
   \<not> list_ex string_empty
       [''a'', ''b'', ''c'', ''d'', ''e'', ''f'', ''g'', ''h'', ''i'', ''j'', ''k''] \<and>
   map_sum id TotalWeight
     (Close string_empty
        (string_sketch 1 [string_compactor_at 0 2 [''a'', ''b'', ''c'', ''d'', ''k''],
                          string_compactor_at 1 0 [''h'', ''f'', ''j'']])) = Inr 11"
proof -
  let ?xs = "[''a'', ''b'', ''c'', ''d'', ''e'', ''f'', ''g'', ''h'', ''i'', ''j'', ''k'']"
  let ?s0 = "string_sketch 0 [string_compactor_at 0 0 []]"
  let ?s1 = "string_sketch 1 [string_compactor_at 0 2 [''a'', ''b'', ''c'', ''d'', ''k''],
                              string_compactor_at 1 0 [''h'', ''f'', ''j'']]"
  have a: "new_Sketch \<lparr>opt_n = 8, opt_k = 2\<rparr> = Inr ?s0" by code_simp
  have r: "Insert_all 12 coins_false (?s0, 0) ?xs = Inr (?s1, 2)" by code_simp
  have e: "\<forall>x \<in> set ?xs. \<not> string_empty x" by (simp add: string_empty_def)
  from weight_conservation [OF _ _ _ a _ _ e, of 12 coins_false 0] r
  obtain s' where "Close string_empty ?s1 = Inr s'" and "TotalWeight s' = 11"
    by auto
  then have "map_sum id TotalWeight (Close string_empty ?s1) = Inr 11" by simp
  with a r e show ?thesis by (simp add: string_empty_def)
qed

text \<open>
  Claim C2. In every state reached from the constructor of a compactor or of a sketch by
  \<open>Insert\<close> calls that returned, each buffer holds at most \<open>max_buffer_size\<close> items.
\<close>

theorem buffer_bound:
  "(new_Compactor k n h = Inr (c0 :: ('a::linorder) Compactor) \<longrightarrow>
      Compactor_Insert_all coins (c0, pos) xs = Inr (c, pos') \<longrightarrow>
      length (buffer c) \<le> max_buffer_size c) \<and>
   (new_Sketch opts = Inr (s0 :: 'a Sketch) \<longrightarrow>
      Insert_calls fuel coins (s0, pos) calls = Inr (s, pos'') \<longrightarrow>
      (\<forall>c \<in> set (compactors s). length (buffer c) \<le> max_buffer_size c))"
proof (intro conjI impI)
  assume c0: "new_Compactor k n h = Inr c0"
    and run: "Compactor_Insert_all coins (c0, pos) xs = Inr (c, pos')"
  let ?P = "\<lambda>st. 0 < cmp_k (fst st) \<and> length (buffer (fst st)) \<le> max_buffer_size (fst st)"
  have "?P (c, pos')"
    using run [unfolded Compactor_Insert_all_def]
  proof (rule for_each_invariant [where P = ?P])
    show "?P (c0, pos)" using new_Compactor_fields [OF c0] by simp
  next
    fix st :: "'a Compactor \<times> nat" and x st'
    assume p: "?P st"
      and "(case Compactor_Insert coins st x of Inl e \<Rightarrow> Inl e
            | Inr (c', output, pos') \<Rightarrow> Inr (c', pos')) = Inr st'"
    then obtain out where ci: "Compactor_Insert coins (fst st, snd st) x = Inr (fst st', out, snd st')"
      by (auto split: sum.splits)
    from p have "length (buffer (fst st)) \<le> max_buffer_size (fst st)" and k: "0 < cmp_k (fst st)"
      by simp_all
    then have "length (buffer (fst st')) \<le> max_buffer_size (fst st')"
      using ci by (rule Compactor_Insert_bound)
    then show "?P st'" using Compactor_Insert_fields(1) [OF ci] k by simp
  qed
  then show "length (buffer c) \<le> max_buffer_size c" by simp
next
  assume s0: "new_Sketch opts = Inr s0"
    and run: "Insert_calls fuel coins (s0, pos) calls = Inr (s, pos'')"
  from s0 obtain c1 where "new_Compactor (opt_k opts) (opt_n opts) 0 = Inr c1"
    and "compactors s0 = [c1]"
    by (auto simp: new_Sketch_def split: sum.splits)
  then have init: "buffers_bounded (compactors s0)"
    using new_Compactor_fields [of "opt_k opts" "opt_n opts" 0 c1] by (simp add: buffers_bounded_def)
  have "buffers_bounded (compactors s)"
  proof (rule Insert_calls_invariant [where P = "\<lambda>s. buffers_bounded (compactors s)", OF _ _ run init])
    fix s :: "'a Sketch" and h s1
    assume "buffers_bounded (compactors s)" and "create_level s h = Inr s1"
    then show "buffers_bounded (compactors s1)" by (rule buffers_bounded_create_level)
  next
    fix s :: "'a Sketch" and h pos x c' out pos'
    assume "buffers_bounded (compactors s)" and "h < length (compactors s)"
      and "Compactor_Insert coins (compactors s ! h, pos) x = Inr (c', out, pos')"
    then have "buffers_bounded ((compactors s)[h := c'])" by (rule buffers_bounded_update)
    then show "buffers_bounded (compactors (s\<lparr>compactors := (compactors s)[h := c']\<rparr>))" by simp
  qed
  then show "\<forall>c \<in> set (compactors s). length (buffer c) \<le> max_buffer_size c"
    by (simp add: buffers_bounded_def list_all_iff)
qed

theorem buffer_bound_witness:
  "new_Compactor 2 8 0 = Inr (test_compactor_at 0 0 []) \<and>
   Compactor_Insert_all coins_true (test_compactor_at 0 0 [], 0) [0, 1, 2, 3, 4, 5, 6, 7] =
     Inr (test_compactor_at 0 0 [0, 1, 2, 3, 4, 5, 6, 7], 0) \<and>
   length (buffer (test_compactor_at 0 0 [0, 1, 2, 3, 4, 5, 6, 7])) \<le> 8 \<and>
   new_Sketch \<lparr>opt_n = 8, opt_k = 2\<rparr> = Inr (test_sketch 0 [test_compactor_at 0 0 []]) \<and>
   Insert_calls 3 coins_true (test_sketch 0 [test_compactor_at 0 0 []], 0)
       [(1, 0), (2, 0), (3, 0), (4, 1)] =
     Inr (test_sketch 1 [test_compactor_at 0 0 [1, 2, 3], test_compactor_at 1 0 [4]], 0) \<and>
   length (buffer (test_compactor_at 0 0 [1, 2, 3]))
     \<le> max_buffer_size (test_compactor_at 0 0 [1, 2, 3]) \<and>
   length (buffer (test_compactor_at 1 0 [4])) \<le> max_buffer_size (test_compactor_at 1 0 [4])"
proof -
  have a: "new_Compactor 2 8 0 = Inr (test_compactor_at 0 0 [])" by code_simp
  have b: "Compactor_Insert_all coins_true (test_compactor_at 0 0 [], 0) [0, 1, 2, 3, 4, 5, 6, 7] =
     Inr (test_compactor_at 0 0 [0, 1, 2, 3, 4, 5, 6, 7], 0)" by code_simp
  have c: "new_Sketch \<lparr>opt_n = 8, opt_k = 2\<rparr> = Inr (test_sketch 0 [test_compactor_at 0 0 []])"
    by code_simp
  have d: "Insert_calls 3 coins_true (test_sketch 0 [test_compactor_at 0 0 []], 0)
       [(1, 0), (2, 0), (3, 0), (4, 1)] =
     Inr (test_sketch 1 [test_compactor_at 0 0 [1, 2, 3], test_compactor_at 1 0 [4]], 0)"
    by code_simp
  from buffer_bound [of 2 8 0 "test_compactor_at 0 0 []" coins_true 0 "[0, 1, 2, 3, 4, 5, 6, 7]"
      "test_compactor_at 0 0 [0, 1, 2, 3, 4, 5, 6, 7]" 0 "\<lparr>opt_n = 8, opt_k = 2\<rparr>"
      "test_sketch 0 [test_compactor_at 0 0 []]" 3 "[(1, 0), (2, 0), (3, 0), (4, 1)]"
      "test_sketch 1 [test_compactor_at 0 0 [1, 2, 3], test_compactor_at 1 0 [4]]" 0]
    a b c d
  show ?thesis by simp
qed

text \<open>
  Claim C3. The schedule counter \<open>C\<close> starts at \<open>0\<close>; an \<open>Insert\<close> that returns never
  decreases it, adds exactly \<open>1\<close> when it compacts (the buffer was full) and leaves it
  alone otherwise; and \<open>sections_to_compact\<close> is one plus the number of trailing one-bits
  of \<open>C\<close>, so that a compaction removes \<open>(trailing_ones C + 1) * k\<close> items.
\<close>

theorem schedule_counter:
  "(new_Compactor k n h = Inr c0 \<longrightarrow> cmp_C (c0 :: ('a::linorder) Compactor) = 0) \<and>
   (Compactor_Insert coins (c, pos) x = Inr (c', out, pos') \<longrightarrow>
      cmp_C c \<le> cmp_C c' \<and>
      (length (buffer c) = max_buffer_size c \<longrightarrow>
         cmp_C c' = cmp_C c + 1 \<and>
         length (buffer c') =
           max_buffer_size c - (trailing_ones (cmp_C c) + 1) * cmp_k c + 1) \<and>
      (length (buffer c) \<noteq> max_buffer_size c \<longrightarrow> cmp_C c' = cmp_C c)) \<and>
   sections_to_compact (cmp_C c) = trailing_ones (cmp_C c) + 1 \<and>
   elements_to_compact c = (trailing_ones (cmp_C c) + 1) * cmp_k c"
proof (intro conjI impI)
  assume "new_Compactor k n h = Inr c0"
  then show "cmp_C c0 = 0" by (auto simp: new_Compactor_def Let_def split: if_splits)
next
  show s: "sections_to_compact (cmp_C c) = trailing_ones (cmp_C c) + 1"
    by (simp add: sections_to_compact_countr_one trailing_ones_countr_one)
  show e: "elements_to_compact c = (trailing_ones (cmp_C c) + 1) * cmp_k c"
    by (simp add: elements_to_compact_def s)
  assume r: "Compactor_Insert coins (c, pos) x = Inr (c', out, pos')"
  show "cmp_C c \<le> cmp_C c'"
  proof (cases "length (buffer c) = max_buffer_size c")
    case True
    then show ?thesis using Compactor_Insert_full_Inr(2) [OF True r] by simp
  next
    case False
    then show ?thesis using r by (auto simp: Compactor_Insert_not_full)
  qed
  {
    assume full: "length (buffer c) = max_buffer_size c"
    show "cmp_C c' = cmp_C c + 1" using Compactor_Insert_full_Inr(2) [OF full r] by simp
    show "length (buffer c') = max_buffer_size c - (trailing_ones (cmp_C c) + 1) * cmp_k c + 1"
      using Compactor_Insert_full_length [OF full r] e by simp
  }
  {
    assume "length (buffer c) \<noteq> max_buffer_size c"
    then show "cmp_C c' = cmp_C c" using r by (auto simp: Compactor_Insert_not_full)
  }
qed

theorem schedule_counter_witness:
  "new_Compactor 2 8 0 = Inr (test_compactor 0 []) \<and> cmp_C (test_compactor 0 []) = 0 \<and>
   Compactor_Insert coins_true (test_compactor 1 [0, 1, 2, 3, 4, 5, 6, 7], 0) 8 =
     Inr (test_compactor 2 [0, 1, 2, 3, 8], [4, 6], 1) \<and>
   length (buffer (test_compactor 1 [0, 1, 2, 3, 4, 5, 6, 7])) = 8 \<and>
   trailing_ones 1 + 1 = 2 \<and>
   length (buffer (test_compactor 2 [0, 1, 2, 3, 8])) = 8 - (trailing_ones 1 + 1) * 2 + 1"
proof -
  have a: "new_Compactor 2 8 0 = Inr (test_compactor 0 [])" by code_simp
  have r: "Compactor_Insert coins_true (test_compactor 1 [0, 1, 2, 3, 4, 5, 6, 7], 0) 8 =
     Inr (test_compactor 2 [0, 1, 2, 3, 8], [4, 6], 1)" by code_simp
  have s: "sections_to_compact 1 = 2" by code_simp
  from schedule_counter [of 2 8 0 "test_compactor 0 []" coins_true
      "test_compactor 1 [0, 1, 2, 3, 4, 5, 6, 7]" 0 8 "test_compactor 2 [0, 1, 2, 3, 8]" "[4, 6]" 1]
    a r s
  show ?thesis by simp
qed

text \<open>
  Claim C4, evaluated. Sixty inserts into \<open>Compactor<int>(2, 8, 0)\<close> bring \<open>C\<close> to \<open>15\<close>
  with a full buffer; the schedule then prescribes \<open>10\<close> items for a buffer of \<open>8\<close>. Nothing
  caps \<open>elements_to_compact\<close>: the next insert takes \<open>S = 8 - 10\<close> in unsigned arithmetic
  and leaves the buffer.
\<close>

theorem schedule_exceeds_buffer:
  "new_Compactor 2 8 0 = Inr (test_compactor 0 []) \<and>
   Compactor_Insert_all coins_true (test_compactor 0 [], 0) (map int [0..<60]) =
     Inr (test_compactor 15 [30, 31, 46, 47, 54, 55, 58, 59], 15) \<and>
   elements_to_compact (test_compactor 15 [30, 31, 46, 47, 54, 55, 58, 59]) = 10 \<and>
   max_buffer_size (test_compactor 15 [30, 31, 46, 47, 54, 55, 58, 59]) = 8 \<and>
   Compactor_Insert coins_true (test_compactor 15 [30, 31, 46, 47, 54, 55, 58, 59], 15) 60 =
     Inl ScheduleExceedsBuffer"
  by code_simp

text \<open>
  Claim C5, as stated, fails: the eighth insert into \<open>Compactor<int>(2, 8, 0)\<close> returns
  with a buffer of exactly \<open>max_buffer_size\<close> items, since the compaction is left to the
  next insert.
\<close>

theorem buffer_full_after_insert_counterexample:
  "new_Compactor 2 8 0 = Inr (test_compactor 0 []) \<and>
   Compactor_Insert_all coins_true (test_compactor 0 [], 0) [0, 1, 2, 3, 4, 5, 6] =
     Inr (test_compactor 0 [0, 1, 2, 3, 4, 5, 6], 0) \<and>
   Compactor_Insert coins_true (test_compactor 0 [0, 1, 2, 3, 4, 5, 6], 0) 7 =
     Inr (test_compactor 0 [0, 1, 2, 3, 4, 5, 6, 7], [], 0) \<and>
   \<not> length (buffer (test_compactor 0 [0, 1, 2, 3, 4, 5, 6, 7]))
       < max_buffer_size (test_compactor 0 [0, 1, 2, 3, 4, 5, 6, 7])"
  by code_simp

text \<open>
  Claim C5, amended. When \<open>Insert\<close> returns on a compactor with \<open>k > 0\<close> whose buffer
  held at most \<open>max_buffer_size\<close> items, the buffer is non-empty and holds at most
  \<open>max_buffer_size\<close> items.
\<close>

theorem buffer_within_bound_after_insert:
  assumes "length (buffer c) \<le> max_buffer_size c" and "0 < cmp_k c"
    and "Compactor_Insert coins (c, pos) x = Inr (c', out, pos')"
  shows "0 < length (buffer c') \<and> length (buffer c') \<le> max_buffer_size c'"
proof
  show "length (buffer c') \<le> max_buffer_size c'" using assms by (rule Compactor_Insert_bound)
  show "0 < length (buffer c')"
  proof (cases "length (buffer c) = max_buffer_size c")
    case True
    then show ?thesis using Compactor_Insert_full_length [OF True assms(3)] by simp
  next
    case False
    then show ?thesis using assms(3) by (auto simp: Compactor_Insert_not_full)
  qed
qed

theorem buffer_within_bound_after_insert_witness:
  "length (buffer (test_compactor 0 [0, 1, 2, 3, 4, 5, 6])) \<le> 8 \<and>
   0 < cmp_k (test_compactor 0 [0, 1, 2, 3, 4, 5, 6]) \<and>
   Compactor_Insert coins_true (test_compactor 0 [0, 1, 2, 3, 4, 5, 6], 0) 7 =
     Inr (test_compactor 0 [0, 1, 2, 3, 4, 5, 6, 7], [], 0) \<and>
   0 < length (buffer (test_compactor 0 [0, 1, 2, 3, 4, 5, 6, 7])) \<and>
   length (buffer (test_compactor 0 [0, 1, 2, 3, 4, 5, 6, 7])) \<le> 8"
proof -
  have r: "Compactor_Insert coins_true (test_compactor 0 [0, 1, 2, 3, 4, 5, 6], 0) 7 =
     Inr (test_compactor 0 [0, 1, 2, 3, 4, 5, 6, 7], [], 0)" by code_simp
  from buffer_within_bound_after_insert [OF _ _ r] r show ?thesis by simp
qed

text \<open>
  Claim C7. The scenario of \<^verbatim>\<open>CompactorTest.Compaction\<close>, for every coin oracle: with
  \<open>k = 2\<close>, \<open>n = 8\<close> the buffer holds \<open>8\<close> items; after inserting \<open>0 .. 7\<close> and setting
  \<open>C = 1\<close>, inserting \<open>8\<close> compacts \<open>2\<close> sections, \<open>4\<close> items, at split point \<open>4\<close>, leaves
  \<open>5\<close> items in the buffer and promotes \<open>2\<close>. In general the buffer holds
  \<open>max_buffer_size - elements_to_compact\<close> items after the compaction, before the append.
\<close>

theorem forced_compaction:
  "new_Compactor 2 8 0 = Inr (test_compactor 0 []) \<and>
   Compactor_Insert_all coins (test_compactor 0 [], pos) [0, 1, 2, 3, 4, 5, 6, 7] =
     Inr (test_compactor 0 [0, 1, 2, 3, 4, 5, 6, 7], pos) \<and>
   sections_to_compact 1 = 2 \<and>
   elements_to_compact (test_compactor 1 [0, 1, 2, 3, 4, 5, 6, 7]) = 4 \<and>
   split_point (test_compactor 1 [0, 1, 2, 3, 4, 5, 6, 7]) = 4 \<and>
   (\<exists>c' promoted pos'.
      Compactor_Insert coins (test_compactor 1 [0, 1, 2, 3, 4, 5, 6, 7], pos) 8 =
        Inr (c', promoted, pos') \<and>
      length (buffer c') = 5 \<and> length promoted = 2) \<and>
   (\<forall>c p c1 out p1.
      length (buffer c) = max_buffer_size c \<longrightarrow>
      compaction coins (c, p) = Inr (c1, out, p1) \<longrightarrow>
      length (buffer (c1 :: ('a::linorder) Compactor)) = max_buffer_size c - elements_to_compact c)"
proof (intro conjI allI impI)
  let ?c = "test_compactor 1 [0, 1, 2, 3, 4, 5, 6, 7]"
  show "new_Compactor 2 8 0 = Inr (test_compactor 0 [])" by code_simp
  show "Compactor_Insert_all coins (test_compactor 0 [], pos) [0, 1, 2, 3, 4, 5, 6, 7] =
     Inr (test_compactor 0 [0, 1, 2, 3, 4, 5, 6, 7], pos)"
    by (simp add: Compactor_Insert_all_def Compactor_Insert_def)
  show s: "sections_to_compact 1 = 2" by code_simp
  show e: "elements_to_compact ?c = 4" by code_simp
  show "split_point ?c = 4" using e by (simp add: split_point_def)
  show "\<exists>c' promoted pos'.
      Compactor_Insert coins (?c, pos) 8 = Inr (c', promoted, pos') \<and>
      length (buffer c') = 5 \<and> length promoted = 2"
  proof -
    from e obtain c1 out pos' where c1: "compaction coins (?c, pos) = Inr (c1, out, pos')"
      using compaction_succeeds [of ?c coins pos] by auto
    then have i: "Compactor_Insert coins (?c, pos) 8 =
        Inr (c1\<lparr>buffer := buffer c1 @ [8]\<rparr>, out, pos')"
      by (simp add: Compactor_Insert_full)
    have "length out = 2" using compaction_length_out [OF c1] e by simp
    moreover have "length (buffer (c1\<lparr>buffer := buffer c1 @ [8]\<rparr>)) = 5"
      using compaction_Inr(2) [OF c1] e by simp
    ultimately show ?thesis using i by blast
  qed
next
  fix c :: "'a Compactor" and p c1 out p1
  assume "length (buffer c) = max_buffer_size c" and "compaction coins (c, p) = Inr (c1, out, p1)"
  then show "length (buffer c1) = max_buffer_size c - elements_to_compact c"
    using compaction_Inr(2) [of coins c p c1 out p1] by simp
qed

theorem forced_compaction_witness:
  "length (buffer (test_compactor 1 [0, 1, 2, 3, 4, 5, 6, 7])) = 8 \<and>
   compaction coins_true (test_compactor 1 [0, 1, 2, 3, 4, 5, 6, 7], 0) =
     Inr (test_compactor 2 [0, 1, 2, 3], [4, 6], 1) \<and>
   length (buffer (test_compactor 2 [0, 1, 2, 3])) =
     8 - elements_to_compact (test_compactor 1 [0, 1, 2, 3, 4, 5, 6, 7])"
proof -
  have r: "compaction coins_true (test_compactor 1 [0, 1, 2, 3, 4, 5, 6, 7], 0) =
     Inr (test_compactor 2 [0, 1, 2, 3], [4, 6], 1)" by code_simp
  have e: "elements_to_compact (test_compactor 1 [0, 1, 2, 3, 4, 5, 6, 7]) = 4" by code_simp
  from forced_compaction [of coins_true 0] r e show ?thesis by simp
qed

text \<open>
  Claim C10. A compaction with \<open>k\<close> even and \<open>elements_to_compact \<le> max_buffer_size\<close>
  returns, and promotes exactly \<open>elements_to_compact div 2\<close> items whatever the coin
  shows; likewise in the variant of \<^verbatim>\<open>compactor.cpp\<close> (for \<open>k > 0\<close>).
\<close>

theorem promoted_count:
  assumes "even (cmp_k c)" and "length (buffer c) = max_buffer_size c"
    and "elements_to_compact c \<le> max_buffer_size c"
  shows "(\<exists>c' promoted pos'.
           Compactor_Insert coins (c, pos) x = Inr (c', promoted, pos') \<and>
           length promoted = elements_to_compact c div 2) \<and>
         (0 < cmp_k c \<longrightarrow>
           (\<exists>c' promoted pos'.
             Compactor_Insert_cpp coins (c, pos) x = Inr (c', promoted, pos') \<and>
             length promoted = elements_to_compact c div 2))"
proof (intro conjI impI)
  from assms(3) obtain c1 out pos' where c1: "compaction coins (c, pos) = Inr (c1, out, pos')"
    using compaction_succeeds by blast
  then have "Compactor_Insert coins (c, pos) x = Inr (c1\<lparr>buffer := buffer c1 @ [x]\<rparr>, out, pos')"
    using assms(2) by (simp add: Compactor_Insert_full)
  moreover have "length out = elements_to_compact c div 2"
    using c1 assms(1) by (rule compaction_length_out)
  ultimately show "\<exists>c' promoted pos'.
           Compactor_Insert coins (c, pos) x = Inr (c', promoted, pos') \<and>
           length promoted = elements_to_compact c div 2" by blast
next
  assume "0 < cmp_k c"
  with assms(3) obtain c1 out pos' where
    c1: "compaction_cpp coins (c, pos) = Inr (c1, out, pos')"
    using compaction_cpp_succeeds by blast
  then have "Compactor_Insert_cpp coins (c, pos) x =
      Inr (c1\<lparr>buffer := buffer c1 @ [x]\<rparr>, out, pos')"
    using assms(2) by (simp add: Compactor_Insert_cpp_def)
  moreover have "length out = elements_to_compact c div 2"
    using c1 assms(1) by (rule compaction_cpp_length_out)
  ultimately show "\<exists>c' promoted pos'.
           Compactor_Insert_cpp coins (c, pos) x = Inr (c', promoted, pos') \<and>
           length promoted = elements_to_compact c div 2" by blast
qed

theorem promoted_count_witness:
  "even (cmp_k (test_compactor 1 [0, 1, 2, 3, 4, 5, 6, 7])) \<and>
   0 < cmp_k (test_compactor 1 [0, 1, 2, 3, 4, 5, 6, 7]) \<and>
   length (buffer (test_compactor 1 [0, 1, 2, 3, 4, 5, 6, 7])) = 8 \<and>
   elements_to_compact (test_compactor 1 [0, 1, 2, 3, 4, 5, 6, 7]) = 4 \<and>
   Compactor_Insert coins_false (test_compactor 1 [0, 1, 2, 3, 4, 5, 6, 7], 0) 8 =
     Inr (test_compactor 2 [0, 1, 2, 3, 8], [5, 7], 1) \<and>
   Compactor_Insert_cpp coins_false (test_compactor 1 [0, 1, 2, 3, 4, 5, 6, 7], 0) 8 =
     Inr (test_compactor 2 [0, 1, 2, 3, 8], [5, 7], 1) \<and>
   length [5, 7 :: int] = 4 div 2"
proof -
  have e: "elements_to_compact (test_compactor 1 [0, 1, 2, 3, 4, 5, 6, 7]) = 4" by code_simp
  have r: "Compactor_Insert coins_false (test_compactor 1 [0, 1, 2, 3, 4, 5, 6, 7], 0) 8 =
     Inr (test_compactor 2 [0, 1, 2, 3, 8], [5, 7], 1)" by code_simp
  have r': "Compactor_Insert_cpp coins_false (test_compactor 1 [0, 1, 2, 3, 4, 5, 6, 7], 0) 8 =
     Inr (test_compactor 2 [0, 1, 2, 3, 8], [5, 7], 1)" by code_simp
  from promoted_count [of "test_compactor 1 [0, 1, 2, 3, 4, 5, 6, 7]" coins_false 0 8] e r r'
  show ?thesis by simp
qed

text \<open>
  Claim C6, evaluated. \<open>Insert(7, 2)\<close> on a fresh sketch (\<open>H = 0\<close>) is not rejected: the
  level block sets \<open>H = 2\<close> and appends a single compactor, so that
  \<open>compactors.length = 2\<close> while \<open>H + 1 = 3\<close>, and \<open>compactors_[2]\<close> is read out of range.
  The assertion of \<open>Close\<close> fails on that state.
\<close>

theorem sparse_level_unchecked:
  "new_Sketch \<lparr>opt_n = 8, opt_k = 2\<rparr> = Inr (test_sketch 0 [test_compactor_at 0 0 []]) \<and>
   create_level (test_sketch 0 [test_compactor_at 0 0 []]) 2 =
     Inr (test_sketch 2 [test_compactor_at 0 0 [], test_compactor_at 2 0 []]) \<and>
   length (compactors (test_sketch 2 [test_compactor_at 0 0 [], test_compactor_at 2 0 []])) = 2 \<and>
   sk_H (test_sketch 2 [test_compactor_at 0 0 [], test_compactor_at 2 0 []]) + 1 = 3 \<and>
   Insert 5 coins_true (test_sketch 0 [test_compactor_at 0 0 []], 0) 7 2 = Inl LevelOutOfRange \<and>
   Close never_empty (test_sketch 2 [test_compactor_at 0 0 [], test_compactor_at 2 0 []]) =
     Inl AssertionFailed"
  by code_simp

text \<open>
  Claim C8. Before \<open>Close\<close>, that is after the constructor and any \<open>Insert\<close> calls that
  returned, \<open>EstimateRank\<close> is \<open>0\<close>, \<open>Quantiles\<close> is empty and the total weight is \<open>0\<close>: the
  list of weighted elements is empty, so the loop of \<open>Quantiles\<close> never divides.
\<close>

theorem query_before_close:
  assumes "new_Sketch opts = Inr s0"
    and "Insert_calls fuel coins (s0, pos) calls = Inr (s, pos')"
  shows "EstimateRank s t = 0 \<and> Quantiles s n = [] \<and> TotalWeight s = 0 \<and>
         weighted_elements s = []"
proof -
  from assms(1) have init: "not_closed s0"
    by (auto simp: new_Sketch_def not_closed_def split: sum.splits)
  have "not_closed s"
  proof (rule Insert_calls_invariant [where P = not_closed, OF _ _ assms(2) init])
    fix s :: "'a Sketch" and h s1
    assume "not_closed s" and "create_level s h = Inr s1"
    then show "not_closed s1" by (rule not_closed_create_level)
  next
    fix s :: "'a Sketch" and h :: nat and c' :: "'a Compactor"
    assume "not_closed s"
    then show "not_closed (s\<lparr>compactors := (compactors s)[h := c']\<rparr>)"
      by (simp add: not_closed_def)
  qed
  then have w: "weighted_elements s = []" and t: "total_weight s = 0"
    by (simp_all add: not_closed_def)
  have "lower_bound [] t 0 0 = 0" by (subst lower_bound.simps) simp
  then have "EstimateRank s t = 0"
    by (simp add: EstimateRank_def w accumulate_weight_def)
  moreover have "Quantiles s n = []" by (simp add: Quantiles_def w)
  moreover have "TotalWeight s = 0" by (simp add: TotalWeight_def t)
  ultimately show ?thesis using w by simp
qed

theorem query_before_close_witness:
  "new_Sketch \<lparr>opt_n = 8, opt_k = 2\<rparr> = Inr (test_sketch 0 [test_compactor_at 0 0 []]) \<and>
   Insert_calls 3 coins_true (test_sketch 0 [test_compactor_at 0 0 []], 0)
       [(1, 0), (2, 0), (3, 0), (4, 1)] =
     Inr (test_sketch 1 [test_compactor_at 0 0 [1, 2, 3], test_compactor_at 1 0 [4]], 0) \<and>
   EstimateRank (test_sketch 1 [test_compactor_at 0 0 [1, 2, 3], test_compactor_at 1 0 [4]]) 2 = 0 \<and>
   Quantiles (test_sketch 1 [test_compactor_at 0 0 [1, 2, 3], test_compactor_at 1 0 [4]]) 2 = [] \<and>
   TotalWeight (test_sketch 1 [test_compactor_at 0 0 [1, 2, 3], test_compactor_at 1 0 [4]]) = 0"
proof -
  have c: "new_Sketch \<lparr>opt_n = 8, opt_k = 2\<rparr> = Inr (test_sketch 0 [test_compactor_at 0 0 []])"
    by code_simp
  have d: "Insert_calls 3 coins_true (test_sketch 0 [test_compactor_at 0 0 []], 0)
       [(1, 0), (2, 0), (3, 0), (4, 1)] =
     Inr (test_sketch 1 [test_compactor_at 0 0 [1, 2, 3], test_compactor_at 1 0 [4]], 0)"
    by code_simp
  from query_before_close [OF c d, of 2 2] c d show ?thesis by simp
qed

text \<open>
  Claim C9, evaluated. With \<open>k = 4\<close>, \<open>n = 100\<close> and the items \<open>1 .. 100\<close>, \<open>Quantiles(2)\<close>
  returns two boundary points, for the all-true and for the all-false coin stream: the
  median, and a second one at the last item, where the cumulative weight over the total
  weight is \<open>1 \<ge> 2 / 2\<close>.
\<close>

theorem quantiles_two_boundaries:
  "RankAndQuantiles_test coins_true =
     Inr (100, 50, [\<lparr>quantile = 1, q_item = 49, cumulative_weight = 50\<rparr>,
                    \<lparr>quantile = 2, q_item = 100, cumulative_weight = 100\<rparr>]) \<and>
   RankAndQuantiles_test coins_false =
     Inr (100, 50, [\<lparr>quantile = 1, q_item = 50, cumulative_weight = 50\<rparr>,
                    \<lparr>quantile = 2, q_item = 100, cumulative_weight = 100\<rparr>])"
  by code_simp

end
